theory Spec2Isabelle
  imports Main "HOL-Library.Word" "HOL-Library.Signed_Division" "HOL-Library.Sublist"
begin

section \<open>UCA collations of go/mysql/collations/uca.go\<close>

text \<open>
  The file uca.go holds the collation facade: \<open>Collate\<close>, \<open>WeightString\<close> and
  \<open>WeightStringLen\<close> of the UCA 9.0.0 collations (\<open>Collation_utf8mb4_uca_0900\<close>) and of
  the legacy UCA collations (\<open>Collation_uca_legacy\<close>). The weight iterators of package
  \<open>internal/uca\<close> that the facade drives are not part of the sources at hand; they are
  modelled below from their described contract, with the weight tables as parameters.
\<close>

type_synonym byte = "8 word"
type_synonym weight = "16 word"

subsection \<open>The weight iterator of the UCA 9.0.0 collations\<close>

text \<open>
  A collation after \<open>init()\<close>. \<open>levelsForCompare\<close> is the field of the source. The
  other two fields stand for the field \<open>uca\<close>, the engine that \<open>uca.NewCollation\<close> builds
  from the tables and from \<open>levelsForCompare\<close>, whose code is missing:
  \<open>uca_weights c k input\<close> gives the weights that an iterator emits for \<open>input\<close> on level
  \<open>k\<close>, and \<open>uca_fast\<close> says whether \<open>c.uca.Iterator\<close> hands out a
  \<open>*uca.FastIterator900\<close>. Both are parameters: nothing is assumed about them.
\<close>

record Collation_utf8mb4_uca_0900 =
  levelsForCompare :: int
  uca_weights :: "int \<Rightarrow> byte list \<Rightarrow> weight list"
  uca_fast :: bool

text \<open>
  Modelled from the spec: the iterator \<open>uca.WeightIterator\<close> of the 900 variant (its
  \<open>Next\<close>, \<open>Level\<close> and \<open>SkipLevel\<close>) is missing from the sources. The state is the
  level counter and the weights still to come: \<open>it_levels\<close> holds the pending weights of
  the current level first and then the weights of every later level.
\<close>

record iterator900 =
  it_levels :: "weight list list"
  it_level :: int

text \<open>
  Modelled from the spec: \<open>c.uca.Iterator(input)\<close>, a fresh iterator at level 0 that will
  walk the input once per configured level.
\<close>

definition Iterator :: "Collation_utf8mb4_uca_0900 \<Rightarrow> byte list \<Rightarrow> iterator900" where
  "Iterator c input =
     \<lparr>it_levels = map (\<lambda>k. uca_weights c k input) [0..levelsForCompare c - 1], it_level = 0\<rparr>"

text \<open>
  Modelled from the spec: \<open>Next() -> (weight, ok)\<close> emits the next pending weight of the
  current level; when the weights of the current level are exhausted it advances the level
  counter and emits a level separator (weight 0), and it returns \<open>ok = false\<close> (with the
  zero weight) only when all configured levels are exhausted.
\<close>

definition Next :: "iterator900 \<Rightarrow> (weight \<times> bool) \<times> iterator900" where
  "Next it =
     (case it_levels it of
        [] \<Rightarrow> ((0, False), it\<lparr>it_level := it_level it + 1\<rparr>)
      | [] # rest \<Rightarrow> ((0, rest \<noteq> []), it\<lparr>it_levels := rest, it_level := it_level it + 1\<rparr>)
      | (w # ws) # rest \<Rightarrow> ((w, True), it\<lparr>it_levels := ws # rest\<rparr>))"

text \<open>Modelled from the spec: \<open>Level() -> int\<close>, the current level index.\<close>

definition Level :: "iterator900 \<Rightarrow> int" where
  "Level it = it_level it"

text \<open>
  Modelled from the spec: \<open>SkipLevel() -> int\<close> skips the remaining elements of the current
  level and returns the new level index.
\<close>

definition SkipLevel :: "iterator900 \<Rightarrow> int \<times> iterator900" where
  "SkipLevel it =
     (let it' = it\<lparr>it_levels := tl (it_levels it), it_level := it_level it + 1\<rparr>
      in (it_level it', it'))"

text \<open>The number of \<open>Next\<close> calls that can still succeed.\<close>

definition remaining :: "iterator900 \<Rightarrow> nat" where
  "remaining it = sum_list (map length (it_levels it)) + length (it_levels it)"

subsection \<open>Collate of the UCA 9.0.0 collations\<close>

text \<open>
  The inner \<open>for\<close> loop of \<open>Collate\<close> (uca.go, lines 97 to 107): both iterators step
  together until the weights differ, one side is exhausted, or one side has left the
  level under comparison. The result is the value of the variables
  \<open>l, lok, r, rok, itleft, itright\<close> after the loop.
\<close>

function scan :: "int \<Rightarrow> iterator900 \<Rightarrow> iterator900 \<Rightarrow>
    weight \<times> bool \<times> weight \<times> bool \<times> iterator900 \<times> iterator900" where
  "scan level itleft itright =
     (case Next itleft of ((l, lok), itleft') \<Rightarrow>
      case Next itright of ((r, rok), itright') \<Rightarrow>
        if l \<noteq> r \<or> \<not> lok \<or> \<not> rok then (l, lok, r, rok, itleft', itright')
        else if Level itleft' \<noteq> level \<or> Level itright' \<noteq> level
          then (l, lok, r, rok, itleft', itright')
        else scan level itleft' itright')"
  by pat_completeness auto

lemma Next_ok_remaining:
  "Next it = ((w, True), it') \<Longrightarrow> remaining it' < remaining it"
  by (auto simp: Next_def remaining_def split: list.splits)

termination scan
  by (relation "measure (\<lambda>(level, itleft, itright). remaining itleft)")
     (auto dest: Next_ok_remaining [OF sym])

declare scan.simps [simp del]

text \<open>The two exit tests of the inner loop, taken together.\<close>

definition scan_stop :: "int \<Rightarrow> weight \<Rightarrow> bool \<Rightarrow> weight \<Rightarrow> bool \<Rightarrow> iterator900 \<Rightarrow> iterator900 \<Rightarrow> bool" where
  "scan_stop level a aok b bok itl1 itr1 \<longleftrightarrow>
     a \<noteq> b \<or> \<not> aok \<or> \<not> bok \<or> Level itl1 \<noteq> level \<or> Level itr1 \<noteq> level"

text \<open>
  \<open>Collate\<close> from the label \<open>nextLevel\<close> on (uca.go, lines 96 to 130): the inner loop,
  then the \<open>switch\<close>. \<open>int(l) - int(r)\<close> is a difference of 64-bit integers that hold
  16-bit values and cannot overflow. The deferred \<open>Done()\<close> calls only hand the iterators
  back to their pool and are left out.
\<close>

function Collate_from :: "Collation_utf8mb4_uca_0900 \<Rightarrow> bool \<Rightarrow> int \<Rightarrow>
    iterator900 \<Rightarrow> iterator900 \<Rightarrow> int" where
  "Collate_from c rightIsPrefix level itleft itright =
     (case scan level itleft itright of (l, lok, r, rok, itleft', itright') \<Rightarrow>
        if Level itleft' = Level itright' then
          (if l = r \<and> lok \<and> rok then
             (if level + 1 < levelsForCompare c
                then Collate_from c rightIsPrefix (level + 1) itleft' itright'
              else uint l - uint r)
           else uint l - uint r)
        else if Level itleft' > level then - 1
        else if Level itright' > level then
          (if rightIsPrefix then
             (case SkipLevel itleft' of (level', itleft'') \<Rightarrow>
                if level' < levelsForCompare c
                  then Collate_from c rightIsPrefix level' itleft'' itright'
                else - uint r)
           else 1)
        else uint l - uint r)"
  by pat_completeness auto

text \<open>What is left of a traversal: the levels not yet entered, then the pending weights.\<close>

definition left_over :: "Collation_utf8mb4_uca_0900 \<Rightarrow> iterator900 \<Rightarrow> nat" where
  "left_over c it = nat (levelsForCompare c - it_level it) + remaining it"

lemma Next_level_mono: "Next it = (res, it') \<Longrightarrow> it_level it \<le> it_level it'"
  by (auto simp: Next_def split: list.splits)

lemma Next_remaining_le: "Next it = (res, it') \<Longrightarrow> remaining it' \<le> remaining it"
  by (auto simp: Next_def remaining_def split: list.splits)

lemma scan_left:
  "scan level itl itr = (l, lok, r, rok, itl', itr') \<Longrightarrow>
     it_level itl \<le> it_level itl' \<and> remaining itl' \<le> remaining itl \<and>
     (lok \<longrightarrow> remaining itl' < remaining itl)"
proof (induction level itl itr rule: scan.induct)
  case (1 level itleft itright)
  obtain a aok itl1 where nl: "Next itleft = ((a, aok), itl1)"
    by (metis surj_pair)
  obtain b bok itr1 where nr: "Next itright = ((b, bok), itr1)"
    by (metis surj_pair)
  show ?case
  proof (cases "a \<noteq> b \<or> \<not> aok \<or> \<not> bok \<or> Level itl1 \<noteq> level \<or> Level itr1 \<noteq> level")
    case True
    with "1.prems" nl nr have "l = a" "lok = aok" "itl' = itl1"
      by (auto simp: scan.simps [of level itleft itright] split: if_splits)
    with nl show ?thesis
      using Next_level_mono [OF nl] Next_remaining_le [OF nl] Next_ok_remaining [of itleft a itl1]
      by auto
  next
    case False
    with "1.prems" nl nr have rec: "scan level itl1 itr1 = (l, lok, r, rok, itl', itr')"
      by (auto simp: scan.simps [of level itleft itright] split: if_splits)
    from False have "aok" by simp
    have ih: "it_level itl1 \<le> it_level itl' \<and> remaining itl' \<le> remaining itl1 \<and>
        (lok \<longrightarrow> remaining itl' < remaining itl1)"
      using "1.IH" [OF nl [symmetric] refl nr [symmetric] refl _ _ rec] False by auto
    then show ?thesis
      using Next_level_mono [OF nl] Next_remaining_le [OF nl] by auto
  qed
qed

lemma SkipLevel_left_over:
  "SkipLevel it = (level', it') \<Longrightarrow> level' < levelsForCompare c \<Longrightarrow>
     left_over c it' < left_over c it"
  by (cases "it_levels it") (auto simp: SkipLevel_def left_over_def remaining_def Let_def)

lemma scan_left_over_le:
  "scan level itl itr = (l, lok, r, rok, itl', itr') \<Longrightarrow> left_over c itl' \<le> left_over c itl"
  by (drule scan_left) (simp add: left_over_def, linarith)

lemma scan_left_over_less:
  "scan level itl itr = (l, True, r, rok, itl', itr') \<Longrightarrow> left_over c itl' < left_over c itl"
  by (drule scan_left) (simp add: left_over_def, linarith)

lemma scan_skip_left_over_less:
  "scan level itl itr = (l, lok, r, rok, itl', itr') \<Longrightarrow> SkipLevel itl' = (level', itl'') \<Longrightarrow>
     level' < levelsForCompare c \<Longrightarrow> left_over c itl'' < left_over c itl"
  using scan_left_over_le [of level itl itr l lok r rok itl' itr' c]
    SkipLevel_left_over [of itl' level' itl'' c] by linarith

termination Collate_from
proof (relation "measure (\<lambda>(c, rightIsPrefix, level, itleft, itright). left_over c itleft)",
    goal_cases)
  case 1
  show ?case by simp
next
  case 2
  then show ?case
    by (auto dest: scan_left_over_less [OF sym])
next
  case 3
  then show ?case
    by (auto dest: scan_skip_left_over_less [OF sym sym])
qed

declare Collate_from.simps [simp del]

text \<open>\<open>Collate\<close> of \<open>Collation_utf8mb4_uca_0900\<close> (uca.go, lines 83 to 131).\<close>

definition Collate :: "Collation_utf8mb4_uca_0900 \<Rightarrow> byte list \<Rightarrow> byte list \<Rightarrow> bool \<Rightarrow> int" where
  "Collate c left right rightIsPrefix =
     Collate_from c rightIsPrefix 0 (Iterator c left) (Iterator c right)"

subsection \<open>Byte slices\<close>

text \<open>
  A Go \<open>[]byte\<close> as far as these functions see it: the bytes up to \<open>len\<close>, and the
  capacity. \<open>nil\<close> has no bytes and capacity 0.
\<close>

record slice =
  elems :: "byte list"
  cap :: nat

definition len :: "slice \<Rightarrow> nat" where
  "len s = length (elems s)"

definition nil :: slice where
  "nil = \<lparr>elems = [], cap = 0\<rparr>"

text \<open>
  The built-in \<open>append\<close>: it writes in place while the capacity suffices and moves the
  bytes to a new array otherwise. The capacity of the new array is chosen by the Go runtime
  and is a parameter here: \<open>grow old needed\<close> for a slice of capacity \<open>old\<close> that must
  hold \<open>needed\<close> bytes.
\<close>

definition go_append :: "(nat \<Rightarrow> nat \<Rightarrow> nat) \<Rightarrow> slice \<Rightarrow> byte list \<Rightarrow> slice" where
  "go_append grow s bs =
     (if len s + length bs \<le> cap s then s\<lparr>elems := elems s @ bs\<rparr>
      else \<lparr>elems = elems s @ bs, cap = grow (cap s) (len s + length bs)\<rparr>)"

text \<open>The two bytes of a weight, \<open>byte(w>>8)\<close> and \<open>byte(w)\<close>.\<close>

definition weight_hi :: "weight \<Rightarrow> byte" where
  "weight_hi w = ucast (drop_bit 8 w)"

definition weight_lo :: "weight \<Rightarrow> byte" where
  "weight_lo w = ucast w"

subsection \<open>WeightString of the UCA 9.0.0 collations\<close>

text \<open>
  Modelled from the spec: \<open>NextChunk(buffer) -> n\<close> of \<open>uca.FastIterator900\<close> is missing
  from the sources. It fills up to \<open>len(buffer)\<close> weight bytes, two bytes per weight and
  byte-identical to what \<open>Next\<close> yields, and returns the count written, which is 0 at
  exhaustion. The model returns the bytes written; \<open>n\<close> is their number.
\<close>

fun NextChunk :: "nat \<Rightarrow> iterator900 \<Rightarrow> byte list \<times> iterator900" where
  "NextChunk n it =
     (if n < 2 then ([], it)
      else case Next it of ((w, ok), it') \<Rightarrow>
        if ok then (case NextChunk (n - 2) it' of (bs, it'') \<Rightarrow> (weight_hi w # weight_lo w # bs, it''))
        else ([], it'))"

declare NextChunk.simps [simp del]

lemma NextChunk_remaining:
  "NextChunk n it = (bs, it') \<Longrightarrow>
     remaining it' \<le> remaining it \<and> (bs \<noteq> [] \<longrightarrow> remaining it' < remaining it)"
proof (induction n it arbitrary: bs it' rule: NextChunk.induct)
  case (1 n it)
  obtain w ok it1 where nx: "Next it = ((w, ok), it1)"
    by (metis surj_pair)
  show ?case
  proof (cases "n < 2 \<or> \<not> ok")
    case True
    then show ?thesis
      using "1.prems" nx Next_remaining_le [OF nx]
      by (auto simp: NextChunk.simps [of n it] split: if_splits)
  next
    case False
    obtain bs2 it2 where rec: "NextChunk (n - 2) it1 = (bs2, it2)"
      by (metis surj_pair)
    have "remaining it2 \<le> remaining it1"
      using "1.IH" [OF _ nx [symmetric] refl _ rec] False by simp
    moreover have "remaining it1 < remaining it"
      using Next_ok_remaining [of it w it1] nx False by simp
    moreover have "it' = it2"
      using "1.prems" nx rec False by (simp add: NextChunk.simps [of n it])
    ultimately show ?thesis by simp
  qed
qed

text \<open>
  The fast branch of \<open>WeightString\<close> (uca.go, lines 137 to 152). While at least 16 bytes
  of capacity are free, \<open>NextChunk\<close> writes straight behind the slice, which is then
  extended over the bytes written; otherwise the chunk goes through the local array
  \<open>chunk\<close> and \<open>append\<close>. The two nested \<open>for\<close> loops are one loop here: after either
  step the test of the inner loop is the next thing evaluated. The result is \<open>dst\<close> at
  the label \<open>performPadding\<close>.
\<close>

function ws_fast :: "(nat \<Rightarrow> nat \<Rightarrow> nat) \<Rightarrow> slice \<Rightarrow> iterator900 \<Rightarrow> slice" where
  "ws_fast grow dst fast =
     (if int (cap dst) - int (len dst) \<ge> 16 then
        (case NextChunk 16 fast of (chunk, fast') \<Rightarrow>
           if int (length chunk) \<le> 0 then dst
           else ws_fast grow (dst\<lparr>elems := elems dst @ chunk\<rparr>) fast')
      else
        (case NextChunk 16 fast of (chunk, fast') \<Rightarrow>
           if int (length chunk) \<le> 0 then dst
           else ws_fast grow (go_append grow dst chunk) fast'))"
  by pat_completeness auto

termination ws_fast
  by (relation "measure (\<lambda>(grow, dst, fast). remaining fast)")
     (auto dest: NextChunk_remaining [OF sym])

declare ws_fast.simps [simp del]

text \<open>The general branch (uca.go, lines 154 to 160): one weight at a time.\<close>

function ws_slow :: "(nat \<Rightarrow> nat \<Rightarrow> nat) \<Rightarrow> slice \<Rightarrow> iterator900 \<Rightarrow> slice" where
  "ws_slow grow dst it =
     (case Next it of ((w, ok), it') \<Rightarrow>
        if \<not> ok then dst
        else ws_slow grow (go_append grow dst [weight_hi w, weight_lo w]) it')"
  by pat_completeness auto

termination ws_slow
  by (relation "measure (\<lambda>(grow, dst, it). remaining it)")
     (auto dest: Next_ok_remaining [OF sym])

declare ws_slow.simps [simp del]

text \<open>The padding loop at \<open>performPadding\<close> (uca.go, lines 165 to 167).\<close>

function pad_zero :: "(nat \<Rightarrow> nat \<Rightarrow> nat) \<Rightarrow> slice \<Rightarrow> slice" where
  "pad_zero grow dst =
     (if len dst < cap dst then pad_zero grow (go_append grow dst [0]) else dst)"
  by pat_completeness auto

termination pad_zero
  by (relation "measure (\<lambda>(grow, dst). cap dst - len dst)")
     (auto simp: go_append_def len_def)

declare pad_zero.simps [simp del]

text \<open>
  \<open>WeightString\<close> of \<open>Collation_utf8mb4_uca_0900\<close> (uca.go, lines 133 to 171). The
  constant \<open>PadToMax\<close> of the package is not among the sources and is a parameter.
\<close>

definition WeightString :: "int \<Rightarrow> (nat \<Rightarrow> nat \<Rightarrow> nat) \<Rightarrow> Collation_utf8mb4_uca_0900 \<Rightarrow>
    slice \<Rightarrow> byte list \<Rightarrow> int \<Rightarrow> slice" where
  "WeightString PadToMax grow c dst src numCodepoints =
     (let it = Iterator c src;
          dst' = (if uca_fast c then ws_fast grow dst it else ws_slow grow dst it)
      in if numCodepoints = PadToMax then pad_zero grow dst' else dst')"

subsection \<open>WeightStringLen of the UCA 9.0.0 collations\<close>

datatype error = Panic string

text \<open>A Go \<open>int\<close> has 64 bits; arithmetic wraps around silently.\<close>

definition int64 :: "int \<Rightarrow> int" where
  "int64 x = signed_take_bit 63 x"

text \<open>
  \<open>WeightStringLen\<close> (uca.go, lines 173 to 181). Go's \<open>%\<close> and \<open>/\<close> truncate towards
  zero (\<open>smod\<close>, \<open>sdiv\<close>). The constant \<open>uca.MaxCollationElementsPerCodepoint\<close> is not
  among the sources and is a parameter.
\<close>

definition WeightStringLen :: "int \<Rightarrow> Collation_utf8mb4_uca_0900 \<Rightarrow> int \<Rightarrow> error + int" where
  "WeightStringLen MaxCollationElementsPerCodepoint c numBytes =
     (if numBytes smod 4 \<noteq> 0 then Inl (Panic ''WeightStringLen called with non-MOD4 length'')
      else
        let levels = levelsForCompare c;
            weights = int64 (int64 ((numBytes sdiv 4) * MaxCollationElementsPerCodepoint) * levels);
            weights = int64 (weights + int64 (levels - 1))
        in Inr (int64 (weights * 2)))"

subsection \<open>The weight iterator of the legacy UCA collations\<close>

text \<open>
  A legacy collation after \<open>init()\<close>: the two fields stand for the field \<open>uca\<close>, the
  engine that \<open>uca.NewCollationLegacy\<close> builds, whose code is missing.
  \<open>legacy_weights c input\<close> lists, for every codepoint decoded from \<open>input\<close> in turn, the
  weights that the iterator emits on decoding it (none for a codepoint that a contraction
  swallows); \<open>WeightForSpace\<close> is \<open>c.uca.WeightForSpace()\<close>. Both are parameters.
\<close>

record Collation_uca_legacy =
  legacy_weights :: "byte list \<Rightarrow> weight list list"
  WeightForSpace :: weight

text \<open>
  Modelled from the spec: the single-level iterator of the legacy variant is missing from
  the sources. Its state is the weights pending for the codepoint at hand, the codepoints
  not yet decoded, and the number of codepoints decoded so far.
\<close>

record iteratorLegacy =
  lit_pending :: "weight list"
  lit_rest :: "weight list list"
  lit_length :: int

text \<open>Modelled from the spec: \<open>c.uca.Iterator(input)\<close> of the legacy variant.\<close>

definition IteratorLegacy :: "Collation_uca_legacy \<Rightarrow> byte list \<Rightarrow> iteratorLegacy" where
  "IteratorLegacy c input = \<lparr>lit_pending = [], lit_rest = legacy_weights c input, lit_length = 0\<rparr>"

text \<open>
  Modelled from the spec: \<open>Next()\<close> of the legacy variant yields the weights of one
  codepoint after the other, without level separators, and \<open>ok = false\<close> (with the zero
  weight) when the input is exhausted.
\<close>

function NextLegacy :: "iteratorLegacy \<Rightarrow> (weight \<times> bool) \<times> iteratorLegacy" where
  "NextLegacy it =
     (case lit_pending it of
        w # ws \<Rightarrow> ((w, True), it\<lparr>lit_pending := ws\<rparr>)
      | [] \<Rightarrow>
        (case lit_rest it of
           [] \<Rightarrow> ((0, False), it)
         | cp # rest \<Rightarrow>
             NextLegacy (it\<lparr>lit_pending := cp, lit_rest := rest, lit_length := lit_length it + 1\<rparr>)))"
  by pat_completeness auto

termination NextLegacy
  by (relation "measure (\<lambda>it. length (lit_rest it))") auto

declare NextLegacy.simps [simp del]

text \<open>Modelled from the spec: \<open>Length()\<close>, the number of codepoints consumed.\<close>

definition Length :: "iteratorLegacy \<Rightarrow> int" where
  "Length it = lit_length it"

text \<open>The number of \<open>Next\<close> calls that can still succeed, and more.\<close>

definition remainingLegacy :: "iteratorLegacy \<Rightarrow> nat" where
  "remainingLegacy it =
     length (lit_pending it) + sum_list (map length (lit_rest it)) + length (lit_rest it)"

lemma NextLegacy_ok_remaining:
  "NextLegacy it = ((w, True), it') \<Longrightarrow> remainingLegacy it' < remainingLegacy it"
proof (induction it rule: NextLegacy.induct)
  case (1 it)
  show ?case
  proof (cases "lit_pending it")
    case (Cons a ws)
    with "1.prems" show ?thesis
      by (auto simp: NextLegacy.simps [of it] remainingLegacy_def)
  next
    case Nil
    show ?thesis
    proof (cases "lit_rest it")
      case empty: Nil
      with Nil "1.prems" show ?thesis
        by (simp add: NextLegacy.simps [of it])
    next
      case (Cons cp rest)
      let ?it1 = "it\<lparr>lit_pending := cp, lit_rest := rest, lit_length := lit_length it + 1\<rparr>"
      have "NextLegacy ?it1 = ((w, True), it')"
        using "1.prems" Nil Cons by (simp add: NextLegacy.simps [of it])
      then have "remainingLegacy it' < remainingLegacy ?it1"
        using "1.IH" [OF Nil Cons] by simp
      then show ?thesis
        using Nil Cons by (simp add: remainingLegacy_def)
    qed
  qed
qed

subsection \<open>Collate of the legacy UCA collations\<close>

text \<open>The loop of \<open>Collate\<close> of \<open>Collation_uca_legacy\<close> (uca.go, lines 275 to 286).\<close>

function CollateLegacy_loop :: "bool \<Rightarrow> iteratorLegacy \<Rightarrow> iteratorLegacy \<Rightarrow> int" where
  "CollateLegacy_loop isPrefix itleft itright =
     (case NextLegacy itleft of ((l, lok), itleft') \<Rightarrow>
      case NextLegacy itright of ((r, rok), itright') \<Rightarrow>
        if l = r \<and> lok \<and> rok then CollateLegacy_loop isPrefix itleft' itright'
        else if \<not> rok \<and> isPrefix then 0
        else uint l - uint r)"
  by pat_completeness auto

termination CollateLegacy_loop
  by (relation "measure (\<lambda>(isPrefix, itleft, itright). remainingLegacy itleft)")
     (auto dest: NextLegacy_ok_remaining [OF sym])

declare CollateLegacy_loop.simps [simp del]

text \<open>\<open>Collate\<close> of \<open>Collation_uca_legacy\<close> (uca.go, lines 264 to 287).\<close>

definition CollateLegacy :: "Collation_uca_legacy \<Rightarrow> byte list \<Rightarrow> byte list \<Rightarrow> bool \<Rightarrow> int" where
  "CollateLegacy c left right isPrefix =
     CollateLegacy_loop isPrefix (IteratorLegacy c left) (IteratorLegacy c right)"

subsection \<open>WeightString of the legacy UCA collations\<close>

text \<open>
  The first loop of \<open>WeightString\<close> of \<open>Collation_uca_legacy\<close> (uca.go, lines 293 to
  299); the iterator is returned too, for \<open>it.Length()\<close> further down.
\<close>

function wsLegacy_emit :: "(nat \<Rightarrow> nat \<Rightarrow> nat) \<Rightarrow> slice \<Rightarrow> iteratorLegacy \<Rightarrow>
    slice \<times> iteratorLegacy" where
  "wsLegacy_emit grow dst it =
     (case NextLegacy it of ((w, ok), it') \<Rightarrow>
        if \<not> ok then (dst, it')
        else wsLegacy_emit grow (go_append grow dst [weight_hi w, weight_lo w]) it')"
  by pat_completeness auto

termination wsLegacy_emit
  by (relation "measure (\<lambda>(grow, dst, it). remainingLegacy it)")
     (auto dest: NextLegacy_ok_remaining [OF sym])

declare wsLegacy_emit.simps [simp del]

text \<open>The loop that pads to the capacity with whole space weights (lines 306 to 308).\<close>

function pad_space :: "(nat \<Rightarrow> nat \<Rightarrow> nat) \<Rightarrow> byte \<Rightarrow> byte \<Rightarrow> slice \<Rightarrow> slice" where
  "pad_space grow w1 w2 dst =
     (if len dst + 1 < cap dst then pad_space grow w1 w2 (go_append grow dst [w1, w2]) else dst)"
  by pat_completeness auto

termination pad_space
  by (relation "measure (\<lambda>(grow, w1, w2, dst). cap dst - len dst)")
     (auto simp: go_append_def len_def)

declare pad_space.simps [simp del]

text \<open>The loop that pads up to a number of codepoints (lines 314 to 317).\<close>

function pad_count :: "(nat \<Rightarrow> nat \<Rightarrow> nat) \<Rightarrow> byte \<Rightarrow> byte \<Rightarrow> int \<Rightarrow> slice \<Rightarrow> slice" where
  "pad_count grow w1 w2 numCodepoints dst =
     (if numCodepoints > 0
        then pad_count grow w1 w2 (numCodepoints - 1) (go_append grow dst [w1, w2])
      else dst)"
  by pat_completeness auto

termination pad_count
  by (relation "measure (\<lambda>(grow, w1, w2, numCodepoints, dst). nat numCodepoints)") auto

declare pad_count.simps [simp del]

text \<open>
  \<open>WeightString\<close> of \<open>Collation_uca_legacy\<close> (uca.go, lines 289 to 322), with the
  constant \<open>PadToMax\<close> as a parameter. The counts are far from the 64-bit limits.
\<close>

definition WeightStringLegacy :: "int \<Rightarrow> (nat \<Rightarrow> nat \<Rightarrow> nat) \<Rightarrow> Collation_uca_legacy \<Rightarrow>
    slice \<Rightarrow> byte list \<Rightarrow> int \<Rightarrow> slice" where
  "WeightStringLegacy PadToMax grow c dst src numCodepoints =
     (case wsLegacy_emit grow dst (IteratorLegacy c src) of (dst', it) \<Rightarrow>
        if numCodepoints > 0 then
          (let weightForSpace = WeightForSpace c;
               w1 = weight_hi weightForSpace;
               w2 = weight_lo weightForSpace
           in if numCodepoints = PadToMax then
                (let dst'' = pad_space grow w1 w2 dst'
                 in if len dst'' < cap dst'' then go_append grow dst'' [w1] else dst'')
              else pad_count grow w1 w2 (numCodepoints - Length it) dst')
        else dst')"

subsection \<open>Notions used to state the properties\<close>

text \<open>
  The weights that a 900 iterator still has to emit, given its levels: the weights of each
  level, with one separator (weight 0) between two levels.
\<close>

fun weight_stream :: "weight list list \<Rightarrow> weight list" where
  "weight_stream [] = []"
| "weight_stream [ws] = ws"
| "weight_stream (ws # rest) = ws @ 0 # weight_stream rest"

text \<open>The weights of a source string under a 900 collation, separators included.\<close>

definition weights900 :: "Collation_utf8mb4_uca_0900 \<Rightarrow> byte list \<Rightarrow> weight list" where
  "weights900 c src = weight_stream (it_levels (Iterator c src))"

text \<open>The bytes of a list of weights, high byte first.\<close>

definition weight_bytes :: "weight list \<Rightarrow> byte list" where
  "weight_bytes ws = concat (map (\<lambda>w. [weight_hi w, weight_lo w]) ws)"

text \<open>
  \<open>k\<close> bytes of padding with a two-byte weight: the weight again and again, cut after its
  high byte when \<open>k\<close> is odd.
\<close>

fun weight_padding :: "byte \<Rightarrow> byte \<Rightarrow> nat \<Rightarrow> byte list" where
  "weight_padding w1 w2 0 = []"
| "weight_padding w1 w2 (Suc 0) = [w1]"
| "weight_padding w1 w2 (Suc (Suc k)) = w1 # w2 # weight_padding w1 w2 k"

text \<open>The weights that a legacy iterator still has to emit.\<close>

definition legacy_stream :: "iteratorLegacy \<Rightarrow> weight list" where
  "legacy_stream it = lit_pending it @ concat (lit_rest it)"

text \<open>The weights of a source string under a legacy collation.\<close>

definition weightsLegacy :: "Collation_uca_legacy \<Rightarrow> byte list \<Rightarrow> weight list" where
  "weightsLegacy c src = concat (legacy_weights c src)"

text \<open>
  The bound of \<open>WeightStringLen\<close> as the specification words it: two bytes for each of the
  worst-case collation elements of every decoded unit on every level, and one separator
  byte between each pair of levels.
\<close>

definition WeightStringLen_worded :: "int \<Rightarrow> int \<Rightarrow> int \<Rightarrow> int" where
  "WeightStringLen_worded maxce levels numBytes =
     2 * ((numBytes div 4) * maxce * levels) + (levels - 1)"

subsection \<open>Sample tables\<close>

text \<open>
  Small instances of the parameters, for running the functions: a 900 collation and a
  legacy collation in which every byte is a codepoint whose weight (on each level) is the
  value of the byte.
\<close>

definition byte_weights :: "int \<Rightarrow> bool \<Rightarrow> Collation_utf8mb4_uca_0900" where
  "byte_weights n fast =
     \<lparr>levelsForCompare = n, uca_weights = (\<lambda>k input. map ucast input), uca_fast = fast\<rparr>"

definition legacy_byte_weights :: "weight \<Rightarrow> Collation_uca_legacy" where
  "legacy_byte_weights space =
     \<lparr>legacy_weights = (\<lambda>input. map (\<lambda>b. [ucast b]) input), WeightForSpace = space\<rparr>"

text \<open>
  A 900 collation in which every byte is a codepoint with three collation elements, each
  of them the value of the byte, on every level.
\<close>

definition expanding_weights :: "int \<Rightarrow> bool \<Rightarrow> Collation_utf8mb4_uca_0900" where
  "expanding_weights n fast =
     \<lparr>levelsForCompare = n,
      uca_weights = (\<lambda>k input. concat (map (\<lambda>b. [ucast b, ucast b, ucast b]) input)),
      uca_fast = fast\<rparr>"

text \<open>
  A growth policy for \<open>append\<close>: at least double, rounded up to a multiple of 8 bytes.
  For the small byte slices it is used on below (up to 32 bytes), this is what the Go
  runtime allocates.
\<close>

definition grow_round8 :: "nat \<Rightarrow> nat \<Rightarrow> nat" where
  "grow_round8 old needed = ((max needed (2 * old) + 7) div 8) * 8"

section \<open>Properties of the model\<close>

subsection \<open>The comparison loop\<close>

lemma scan_unfold:
  "Next itl = ((a, aok), itl1) \<Longrightarrow> Next itr = ((b, bok), itr1) \<Longrightarrow>
   scan level itl itr =
     (if scan_stop level a aok b bok itl1 itr1 then (a, aok, b, bok, itl1, itr1)
      else scan level itl1 itr1)"
  by (subst scan.simps) (auto simp: scan_stop_def)

lemma scan_induct2 [case_names step]:
  assumes "\<And>level itl itr a aok b bok itl1 itr1.
     Next itl = ((a, aok), itl1) \<Longrightarrow> Next itr = ((b, bok), itr1) \<Longrightarrow>
     (\<not> scan_stop level a aok b bok itl1 itr1 \<Longrightarrow> P level itl1 itr1) \<Longrightarrow> P level itl itr"
  shows "P level itl itr"
proof (induction level itl itr rule: scan.induct)
  case (1 level itleft itright)
  obtain a aok itl1 where nl: "Next itleft = ((a, aok), itl1)"
    by (metis surj_pair)
  obtain b bok itr1 where nr: "Next itright = ((b, bok), itr1)"
    by (metis surj_pair)
  show ?case
  proof (rule assms [OF nl nr])
    assume "\<not> scan_stop level a aok b bok itl1 itr1"
    then show "P level itl1 itr1"
      using "1.IH" [OF nl [symmetric] refl nr [symmetric] refl] by (simp add: scan_stop_def)
  qed
qed

lemma scan_swap:
  "scan level itl itr = (l, lok, r, rok, itl', itr') \<Longrightarrow>
   scan level itr itl = (r, rok, l, lok, itr', itl')"
proof (induction level itl itr rule: scan_induct2)
  case (step level itl itr a aok b bok itl1 itr1)
  have sw: "scan_stop level b bok a aok itr1 itl1 = scan_stop level a aok b bok itl1 itr1"
    by (auto simp: scan_stop_def)
  show ?case
  proof (cases "scan_stop level a aok b bok itl1 itr1")
    case True
    then show ?thesis
      using step.prems scan_unfold [OF step.hyps(1,2), of level]
        scan_unfold [OF step.hyps(2,1), of level] sw by simp
  next
    case False
    then show ?thesis
      using step.prems step.IH scan_unfold [OF step.hyps(1,2), of level]
        scan_unfold [OF step.hyps(2,1), of level] sw by simp
  qed
qed

lemma Next_level_step:
  "Next it = (res, it') \<Longrightarrow> it_level it' = it_level it \<or> it_level it' = it_level it + 1"
  by (auto simp: Next_def split: list.splits)

lemma scan_levels:
  "scan level itl itr = (l, lok, r, rok, itl', itr') \<Longrightarrow>
   it_level itl = level \<Longrightarrow> it_level itr = level \<Longrightarrow>
     (it_level itl' = level \<or> it_level itl' = level + 1) \<and>
     (it_level itr' = level \<or> it_level itr' = level + 1)"
proof (induction level itl itr rule: scan_induct2)
  case (step level itl itr a aok b bok itl1 itr1)
  show ?case
  proof (cases "scan_stop level a aok b bok itl1 itr1")
    case True
    then have "itl' = itl1" "itr' = itr1"
      using step.prems(1) scan_unfold [OF step.hyps(1,2), of level] by simp_all
    then show ?thesis
      using Next_level_step [OF step.hyps(1)] Next_level_step [OF step.hyps(2)] step.prems(2,3)
      by auto
  next
    case False
    then have "scan level itl1 itr1 = (l, lok, r, rok, itl', itr')"
      using step.prems(1) scan_unfold [OF step.hyps(1,2), of level] by simp
    moreover from False have "it_level itl1 = level" "it_level itr1 = level"
      by (simp_all add: scan_stop_def Level_def)
    ultimately show ?thesis
      using step.IH [OF False] by simp
  qed
qed

lemma scan_both_ok_levels:
  "scan level itl itr = (l, True, l, True, itl', itr') \<Longrightarrow>
     it_level itl' \<noteq> level \<or> it_level itr' \<noteq> level"
proof (induction level itl itr rule: scan_induct2)
  case (step level itl itr a aok b bok itl1 itr1)
  show ?case
  proof (cases "scan_stop level a aok b bok itl1 itr1")
    case True
    then have "itl' = itl1" "itr' = itr1" "a = l" "b = l" "aok" "bok"
      using step.prems(1) scan_unfold [OF step.hyps(1,2), of level] by simp_all
    with True show ?thesis
      by (simp add: scan_stop_def Level_def)
  next
    case False
    then have "scan level itl1 itr1 = (l, True, l, True, itl', itr')"
      using step.prems(1) scan_unfold [OF step.hyps(1,2), of level] by simp
    then show ?thesis
      using step.IH [OF False] by simp
  qed
qed


lemma Collate_from_unfold:
  "scan level itl itr = (l, lok, r, rok, itl', itr') \<Longrightarrow>
   Collate_from c rightIsPrefix level itl itr =
     (if Level itl' = Level itr' then
        (if l = r \<and> lok \<and> rok then
           (if level + 1 < levelsForCompare c
              then Collate_from c rightIsPrefix (level + 1) itl' itr'
            else uint l - uint r)
         else uint l - uint r)
      else if Level itl' > level then - 1
      else if Level itr' > level then
        (if rightIsPrefix then
           (case SkipLevel itl' of (level', itl'') \<Rightarrow>
              if level' < levelsForCompare c
                then Collate_from c rightIsPrefix level' itl'' itr'
              else - uint r)
         else 1)
      else uint l - uint r)"
  by (subst Collate_from.simps) simp

lemma Collate_from_antisym:
  "it_level itl = level \<Longrightarrow> it_level itr = level \<Longrightarrow>
     sgn (Collate_from c False level itl itr) = - sgn (Collate_from c False level itr itl)"
proof (induction "left_over c itl" arbitrary: level itl itr rule: less_induct)
  case less
  obtain l lok r rok itl' itr' where sc: "scan level itl itr = (l, lok, r, rok, itl', itr')"
    by (cases "scan level itl itr") auto
  note sw = scan_swap [OF sc]
  note lv = scan_levels [OF sc less.prems]
  note ul = Collate_from_unfold [OF sc, of c False]
  note ur = Collate_from_unfold [OF sw, of c False]
  show ?case
  proof (cases "Level itl' = Level itr'")
    case same: True
    show ?thesis
    proof (cases "l = r \<and> lok \<and> rok \<and> level + 1 < levelsForCompare c")
      case True
      then have sc': "scan level itl itr = (l, True, l, True, itl', itr')"
        using sc by simp
      from scan_both_ok_levels [OF sc'] lv same
      have "it_level itl' = level + 1" "it_level itr' = level + 1"
        by (auto simp: Level_def)
      moreover have "left_over c itl' < left_over c itl"
        using scan_left_over_less [OF sc'] .
      ultimately have "sgn (Collate_from c False (level + 1) itl' itr') =
          - sgn (Collate_from c False (level + 1) itr' itl')"
        using less.hyps [of itl' "level + 1" itr'] by simp
      then show ?thesis
        using same True by (simp add: ul ur)
    next
      case False
      then show ?thesis
        using same by (auto simp add: ul ur sgn_if)
    qed
  next
    case False
    then show ?thesis
      using lv by (auto simp add: ul ur Level_def)
  qed
qed

lemma scan_continue:
  "Next itl = ((a, aok), itl1) \<Longrightarrow> Next itr = ((b, bok), itr1) \<Longrightarrow>
   \<not> scan_stop level a aok b bok itl1 itr1 \<Longrightarrow>
   Collate_from c p level itl itr = Collate_from c p level itl1 itr1"
  by (subst Collate_from.simps, subst (2) Collate_from.simps) (simp add: scan_unfold)

lemma Collate_from_right_prefix:
  "it_level itl = level \<Longrightarrow> it_level itr = level \<Longrightarrow>
   list_all2 prefix (it_levels itr) (it_levels itl) \<Longrightarrow>
   Collate_from c True level itl itr = 0"
proof (induction "remaining itr" arbitrary: level itl itr rule: less_induct)
  case less
  show ?case
  proof (cases "it_levels itr")
    case Nil
    with less.prems have ln: "it_levels itl = []" by simp
    have nl: "Next itl = ((0, False), itl\<lparr>it_level := level + 1\<rparr>)"
      using ln less.prems by (simp add: Next_def)
    have nr: "Next itr = ((0, False), itr\<lparr>it_level := level + 1\<rparr>)"
      using Nil less.prems by (simp add: Next_def)
    have sc: "scan level itl itr = (0, False, 0, False, itl\<lparr>it_level := level + 1\<rparr>, itr\<lparr>it_level := level + 1\<rparr>)"
      by (simp add: scan_unfold [OF nl nr] scan_stop_def)
    show ?thesis
      by (simp add: Collate_from_unfold [OF sc] Level_def)
  next
    case (Cons rs rest_r)
    with less.prems obtain ls rest_l where cl: "it_levels itl = ls # rest_l"
      and p: "prefix rs ls" and ps: "list_all2 prefix rest_r rest_l"
      by (auto simp: list_all2_Cons1)
    show ?thesis
    proof (cases rs)
      case (Cons w ws)
      with p obtain ls' where ls: "ls = w # ls'" and p': "prefix ws ls'"
        by (cases ls) auto
      let ?l1 = "itl\<lparr>it_levels := ls' # rest_l\<rparr>" and ?r1 = "itr\<lparr>it_levels := ws # rest_r\<rparr>"
      have nl: "Next itl = ((w, True), ?l1)"
        using cl ls by (simp add: Next_def)
      have nr: "Next itr = ((w, True), ?r1)"
        using \<open>it_levels itr = rs # rest_r\<close> Cons by (simp add: Next_def)
      have ns: "\<not> scan_stop level w True w True ?l1 ?r1"
        using less.prems by (simp add: scan_stop_def Level_def)
      have rr1: "remaining ?r1 < remaining itr"
        using Next_ok_remaining [OF nr] .
      have "Collate_from c True level ?l1 ?r1 = 0"
        by (rule less.hyps [OF rr1]) (use less.prems p' ps in simp_all)
      then show ?thesis
        by (simp add: scan_continue [OF nl nr ns])
    next
      case Nil
      let ?r1 = "itr\<lparr>it_levels := rest_r, it_level := level + 1\<rparr>"
      have nr: "Next itr = ((0, rest_r \<noteq> []), ?r1)"
        using \<open>it_levels itr = rs # rest_r\<close> Nil less.prems by (simp add: Next_def)
      have rr: "remaining ?r1 < remaining itr"
        using \<open>it_levels itr = rs # rest_r\<close> Nil by (simp add: remaining_def)
      show ?thesis
      proof (cases ls)
        case lnil: Nil
        let ?l1 = "itl\<lparr>it_levels := rest_l, it_level := level + 1\<rparr>"
        have nl: "Next itl = ((0, rest_l \<noteq> []), ?l1)"
          using cl lnil less.prems by (simp add: Next_def)
        have sc: "scan level itl itr = (0, rest_l \<noteq> [], 0, rest_r \<noteq> [], ?l1, ?r1)"
          by (simp add: scan_unfold [OF nl nr] scan_stop_def Level_def)
        have "Collate_from c True (level + 1) ?l1 ?r1 = 0"
          by (rule less.hyps [OF rr]) (use ps in simp_all)
        then show ?thesis
          by (simp add: Collate_from_unfold [OF sc] Level_def)
      next
        case (Cons x ls')
        let ?l1 = "itl\<lparr>it_levels := ls' # rest_l\<rparr>"
        let ?l2 = "itl\<lparr>it_levels := rest_l, it_level := level + 1\<rparr>"
        have nl: "Next itl = ((x, True), ?l1)"
          using cl Cons by (simp add: Next_def)
        have sc: "scan level itl itr = (x, True, 0, rest_r \<noteq> [], ?l1, ?r1)"
          by (simp add: scan_unfold [OF nl nr] scan_stop_def Level_def)
        have sk: "SkipLevel ?l1 = (level + 1, ?l2)"
          using less.prems by (simp add: SkipLevel_def)
        have "Collate_from c True (level + 1) ?l2 ?r1 = 0"
          by (rule less.hyps [OF rr]) (use ps in simp_all)
        then show ?thesis
          using less.prems by (simp add: Collate_from_unfold [OF sc] Level_def sk)
      qed
    qed
  qed
qed

lemma Collate_right_prefix:
  assumes "\<forall>k \<in> {0 ..< levelsForCompare c}. prefix (uca_weights c k right) (uca_weights c k left)"
  shows "Collate c left right True = 0"
  unfolding Collate_def
proof (rule Collate_from_right_prefix)
  show "list_all2 prefix (it_levels (Iterator c right)) (it_levels (Iterator c left))"
    using assms by (auto simp: Iterator_def list_all2_map1 list_all2_map2 intro!: list_all2_same [THEN iffD2])
qed (simp_all add: Iterator_def)

subsection \<open>The legacy comparison loop\<close>

lemma NextLegacy_stream:
  "\<exists>it'. NextLegacy it =
      ((case legacy_stream it of [] \<Rightarrow> 0 | w # _ \<Rightarrow> w, legacy_stream it \<noteq> []), it') \<and>
     legacy_stream it' = tl (legacy_stream it)"
proof (induction it rule: NextLegacy.induct)
  case (1 it)
  show ?case
  proof (cases "lit_pending it")
    case (Cons a ws)
    then show ?thesis
      by (simp add: NextLegacy.simps [of it] legacy_stream_def)
  next
    case Nil
    show ?thesis
    proof (cases "lit_rest it")
      case empty: Nil
      with Nil show ?thesis
        by (simp add: NextLegacy.simps [of it] legacy_stream_def)
    next
      case (Cons cp rest)
      let ?it1 = "it\<lparr>lit_pending := cp, lit_rest := rest, lit_length := lit_length it + 1\<rparr>"
      have "legacy_stream ?it1 = legacy_stream it"
        using Nil Cons by (simp add: legacy_stream_def)
      moreover have "NextLegacy it = NextLegacy ?it1"
        using Nil Cons by (simp add: NextLegacy.simps [of it])
      ultimately show ?thesis
        using "1.IH" [OF Nil Cons] by simp
    qed
  qed
qed

lemma NextLegacy_Cons:
  assumes "legacy_stream it = w # ws"
  obtains it' where "NextLegacy it = ((w, True), it')" "legacy_stream it' = ws"
  using NextLegacy_stream [of it] assms by auto

lemma NextLegacy_Nil:
  assumes "legacy_stream it = []"
  obtains it' where "NextLegacy it = ((0, False), it')" "legacy_stream it' = []"
  using NextLegacy_stream [of it] assms by auto

lemma CollateLegacy_loop_prefix:
  "prefix (legacy_stream itr) (legacy_stream itl) \<Longrightarrow> CollateLegacy_loop True itl itr = 0"
proof (induction "legacy_stream itr" arbitrary: itl itr)
  case Nil
  from Nil.hyps [symmetric] obtain itr' where r: "NextLegacy itr = ((0, False), itr')"
    by (rule NextLegacy_Nil)
  obtain l lok itl' where l: "NextLegacy itl = ((l, lok), itl')"
    by (cases "NextLegacy itl") auto
  show ?case
    by (subst CollateLegacy_loop.simps) (simp add: l r)
next
  case (Cons w ws)
  from Cons.hyps(2) [symmetric] obtain itr' where r: "NextLegacy itr = ((w, True), itr')"
    and r': "legacy_stream itr' = ws"
    by (rule NextLegacy_Cons)
  from Cons.prems Cons.hyps(2) [symmetric] obtain ls
    where ls: "legacy_stream itl = w # ls" and p: "prefix ws ls"
    by (cases "legacy_stream itl") auto
  from ls obtain itl' where l: "NextLegacy itl = ((w, True), itl')"
    and l': "legacy_stream itl' = ls"
    by (rule NextLegacy_Cons)
  have "CollateLegacy_loop True itl' itr' = 0"
    using Cons.hyps(1) [of itr' itl'] r' l' p by simp
  then show ?case
    by (subst CollateLegacy_loop.simps) (simp add: l r)
qed

lemma CollateLegacy_loop_left_exhausted:
  "legacy_stream itl = ls \<Longrightarrow> legacy_stream itr = rs \<Longrightarrow> strict_prefix ls rs \<Longrightarrow>
     CollateLegacy_loop isPrefix itl itr = - uint (rs ! length ls)"
proof (induction ls arbitrary: itl itr rs)
  case Nil
  then obtain x rs' where rs: "rs = x # rs'"
    by (cases rs) auto
  from Nil.prems(1) obtain itl' where l: "NextLegacy itl = ((0, False), itl')"
    by (rule NextLegacy_Nil)
  from Nil.prems(2) rs obtain itr' where r: "NextLegacy itr = ((x, True), itr')"
    by (auto elim: NextLegacy_Cons)
  show ?case
    by (subst CollateLegacy_loop.simps) (simp add: l r rs)
next
  case (Cons w ls')
  then obtain rs' where rs: "rs = w # rs'" and sp: "strict_prefix ls' rs'"
    by (cases rs) auto
  from Cons.prems(1) obtain itl' where l: "NextLegacy itl = ((w, True), itl')"
    and l': "legacy_stream itl' = ls'"
    by (rule NextLegacy_Cons)
  from Cons.prems(2) rs obtain itr' where r: "NextLegacy itr = ((w, True), itr')"
    and r': "legacy_stream itr' = rs'"
    by (auto elim: NextLegacy_Cons)
  have "CollateLegacy_loop isPrefix itl' itr' = - uint (rs' ! length ls')"
    by (rule Cons.IH [OF l' r' sp])
  then show ?case
    by (subst CollateLegacy_loop.simps) (simp add: l r rs)
qed

subsection \<open>Arithmetic of WeightStringLen\<close>

lemma smod4_eq_0_iff: "(n smod 4 = 0) \<longleftrightarrow> 4 dvd n" for n :: int
  by (auto simp: smod_int_alt_def sgn_if dvd_eq_mod_eq_0 zmod_zminus1_eq_if split: if_splits)

lemma int64_id: "- (2 ^ 63) \<le> x \<Longrightarrow> x < 2 ^ 63 \<Longrightarrow> int64 x = x"
  by (simp add: int64_def signed_take_bit_int_eq_self)

lemma sdiv_nonneg: "0 \<le> a \<Longrightarrow> 0 \<le> b \<Longrightarrow> a sdiv b = a div b" for a b :: int
  by (auto simp: signed_divide_int_def sgn_if)

lemma WeightStringLen_value:
  assumes "4 dvd numBytes" "0 \<le> numBytes" "0 \<le> m" "1 \<le> levelsForCompare c"
    and "2 * ((numBytes div 4) * m * levelsForCompare c + (levelsForCompare c - 1)) < 2 ^ 63"
  shows "WeightStringLen m c numBytes =
     Inr (2 * ((numBytes div 4) * m * levelsForCompare c + (levelsForCompare c - 1)))"
proof -
  let ?q = "numBytes div 4" and ?L = "levelsForCompare c"
  have q: "0 \<le> ?q" using assms(2) by simp
  have qm: "0 \<le> ?q * m" using q assms(3) by simp
  have qml: "0 \<le> ?q * m * ?L" using qm assms(4) by simp
  have le1: "?q * m \<le> ?q * m * ?L"
    using qm assms(4) by (simp add: mult_le_cancel_left1)
  have b: "?q * m * ?L + (?L - 1) < 2 ^ 62 * 2"
    using assms(5) by simp
  have e1: "int64 (?q * m) = ?q * m"
    using qm le1 b assms(4) by (intro int64_id) auto
  have e2: "int64 (?q * m * ?L) = ?q * m * ?L"
    using qml b assms(4) by (intro int64_id) auto
  have e3: "int64 (?L - 1) = ?L - 1"
    using qml b assms(4) by (intro int64_id) auto
  have e4: "int64 (?q * m * ?L + (?L - 1)) = ?q * m * ?L + (?L - 1)"
    using qml b assms(4) by (intro int64_id) auto
  have e5: "int64 ((?q * m * ?L + (?L - 1)) * 2) = (?q * m * ?L + (?L - 1)) * 2"
    using qml assms(4,5) by (intro int64_id) auto
  have d: "numBytes sdiv 4 = ?q"
    using assms(2) by (simp add: sdiv_nonneg)
  have z: "numBytes smod 4 = 0"
    using assms(1) by (simp add: smod4_eq_0_iff)
  have "WeightStringLen m c numBytes = Inr ((?q * m * ?L + (?L - 1)) * 2)"
    by (simp only: WeightStringLen_def Let_def d z e1 e2 e3 e4 e5 simp_thms if_False)
  then show ?thesis
    by (simp add: algebra_simps)
qed

subsection \<open>Slices and the loops of WeightString\<close>

lemma elems_go_append [simp]: "elems (go_append grow s bs) = elems s @ bs"
  by (simp add: go_append_def)

lemma len_go_append [simp]: "len (go_append grow s bs) = len s + length bs"
  by (simp add: len_def)

lemma cap_go_append_fit: "len s + length bs \<le> cap s \<Longrightarrow> cap (go_append grow s bs) = cap s"
  by (simp add: go_append_def)

lemma weight_bytes_simps [simp]:
  "weight_bytes [] = []"
  "weight_bytes (w # ws) = weight_hi w # weight_lo w # weight_bytes ws"
  "weight_bytes (xs @ ys) = weight_bytes xs @ weight_bytes ys"
  by (simp_all add: weight_bytes_def)

lemma length_weight_bytes [simp]: "length (weight_bytes ws) = 2 * length ws"
  by (induction ws) simp_all

lemma weight_stream_Cons: "weight_stream ((w # ws) # rest) = w # weight_stream (ws # rest)"
  by (cases rest) simp_all

lemma Next_stream:
  "Next it = ((w, ok), it') \<Longrightarrow>
     (if ok then weight_stream (it_levels it) = w # weight_stream (it_levels it')
      else weight_stream (it_levels it) = [] \<and> weight_stream (it_levels it') = [])"
  by (cases "it_levels it" rule: weight_stream.cases)
     (auto simp: Next_def weight_stream_Cons split: list.splits)

lemma ws_slow_unfold:
  "Next it = ((w, ok), it') \<Longrightarrow>
   ws_slow grow dst it =
     (if \<not> ok then dst else ws_slow grow (go_append grow dst [weight_hi w, weight_lo w]) it')"
  by (subst ws_slow.simps) simp

lemma ws_slow_result:
  "elems (ws_slow grow dst it) = elems dst @ weight_bytes (weight_stream (it_levels it)) \<and>
   (len dst + length (weight_bytes (weight_stream (it_levels it))) \<le> cap dst \<longrightarrow>
      cap (ws_slow grow dst it) = cap dst)"
proof (induction grow dst it rule: ws_slow.induct)
  case (1 grow dst it)
  obtain w ok it' where nx: "Next it = ((w, ok), it')"
    by (cases "Next it") auto
  note st = Next_stream [OF nx]
  show ?case
  proof (cases ok)
    case False
    with st show ?thesis
      by (simp add: ws_slow_unfold [OF nx])
  next
    case True
    with st have s: "weight_stream (it_levels it) = w # weight_stream (it_levels it')"
      by simp
    from True "1.IH" [OF nx [symmetric] refl] show ?thesis
      by (simp add: ws_slow_unfold [OF nx] s cap_go_append_fit)
  qed
qed

lemma NextChunk_unfold:
  "Next it = ((w, ok), it') \<Longrightarrow>
   NextChunk n it =
     (if n < 2 then ([], it)
      else if ok then (case NextChunk (n - 2) it' of (bs, it'') \<Rightarrow> (weight_hi w # weight_lo w # bs, it''))
      else ([], it'))"
  by (subst NextChunk.simps) simp

lemma NextChunk_result:
  "NextChunk n it = (bs, it') \<Longrightarrow>
     bs = weight_bytes (take (n div 2) (weight_stream (it_levels it))) \<and>
     weight_stream (it_levels it') = drop (n div 2) (weight_stream (it_levels it))"
proof (induction n it arbitrary: bs it' rule: NextChunk.induct)
  case (1 n it)
  obtain w ok it1 where nx: "Next it = ((w, ok), it1)"
    by (cases "Next it") auto
  note st = Next_stream [OF nx]
  show ?case
  proof (cases "n < 2")
    case True
    then have "n div 2 = 0" by simp
    with True "1.prems" show ?thesis
      by (simp add: NextChunk_unfold [OF nx])
  next
    case n2: False
    then obtain m where m: "n div 2 = Suc m" "(n - 2) div 2 = m"
      by (cases "n div 2") (auto simp: div_eq_0_iff)
    show ?thesis
    proof (cases ok)
      case False
      with st n2 "1.prems" show ?thesis
        by (simp add: NextChunk_unfold [OF nx])
    next
      case True
      obtain bs2 it2 where rec: "NextChunk (n - 2) it1 = (bs2, it2)"
        by (cases "NextChunk (n - 2) it1") auto
      from True st have s: "weight_stream (it_levels it) = w # weight_stream (it_levels it1)"
        by simp
      have ih: "bs2 = weight_bytes (take m (weight_stream (it_levels it1))) \<and>
          weight_stream (it_levels it2) = drop m (weight_stream (it_levels it1))"
        using "1.IH" [OF n2 nx [symmetric] refl True rec] m by simp
      from "1.prems" True n2 rec have "bs = weight_hi w # weight_lo w # bs2" "it' = it2"
        by (simp_all add: NextChunk_unfold [OF nx])
      with ih show ?thesis
        by (simp add: s m)
    qed
  qed
qed

lemma ws_fast_unfold:
  "NextChunk 16 fast = (chunk, fast') \<Longrightarrow>
   ws_fast grow dst fast =
     (if chunk = [] then dst
      else if int (cap dst) - int (len dst) \<ge> 16
        then ws_fast grow (dst\<lparr>elems := elems dst @ chunk\<rparr>) fast'
      else ws_fast grow (go_append grow dst chunk) fast')"
  by (subst ws_fast.simps) simp

lemma ws_fast_result:
  "elems (ws_fast grow dst it) = elems dst @ weight_bytes (weight_stream (it_levels it)) \<and>
   (len dst + length (weight_bytes (weight_stream (it_levels it))) \<le> cap dst \<longrightarrow>
      cap (ws_fast grow dst it) = cap dst)"
proof (induction grow dst it rule: ws_fast.induct)
  case (1 grow dst fast)
  obtain chunk fast' where nc: "NextChunk 16 fast = (chunk, fast')"
    by (cases "NextChunk 16 fast") auto
  let ?S = "weight_stream (it_levels fast)"
  from NextChunk_result [OF nc]
  have ch: "chunk = weight_bytes (take 8 ?S)" and dr: "weight_stream (it_levels fast') = drop 8 ?S"
    by simp_all
  have split: "weight_bytes ?S = chunk @ weight_bytes (drop 8 ?S)"
    unfolding ch by (simp flip: weight_bytes_simps(3))
  show ?case
  proof (cases "chunk = []")
    case True
    with ch have "take 8 ?S = []"
      by (cases "take 8 ?S") simp_all
    then have "?S = []" by simp
    with True show ?thesis
      by (simp add: ws_fast_unfold [OF nc])
  next
    case ne: False
    then have nl: "\<not> int (length chunk) \<le> 0" by simp
    show ?thesis
    proof (cases "int (cap dst) - int (len dst) \<ge> 16")
      case True
      have "length chunk \<le> 16"
        unfolding ch by simp
      with True have fit: "len dst + length chunk \<le> cap dst" by simp
      from "1.IH"(1) [OF True nc [symmetric] nl]
      have ih: "elems (ws_fast grow (dst\<lparr>elems := elems dst @ chunk\<rparr>) fast') =
          elems dst @ chunk @ weight_bytes (drop 8 ?S) \<and>
         (len (dst\<lparr>elems := elems dst @ chunk\<rparr>) + length (weight_bytes (drop 8 ?S)) \<le> cap dst \<longrightarrow>
            cap (ws_fast grow (dst\<lparr>elems := elems dst @ chunk\<rparr>) fast') = cap dst)"
        by (simp add: dr)
      show ?thesis
        using ih ne True by (simp add: ws_fast_unfold [OF nc] split len_def)
    next
      case False
      from "1.IH"(2) [OF False nc [symmetric] nl]
      have ih: "elems (ws_fast grow (go_append grow dst chunk) fast') =
          elems dst @ chunk @ weight_bytes (drop 8 ?S) \<and>
         (len dst + length chunk + length (weight_bytes (drop 8 ?S)) \<le> cap (go_append grow dst chunk) \<longrightarrow>
            cap (ws_fast grow (go_append grow dst chunk) fast') = cap (go_append grow dst chunk))"
        by (simp add: dr)
      show ?thesis
        using ih ne False by (auto simp add: ws_fast_unfold [OF nc] split cap_go_append_fit)
    qed
  qed
qed

lemma pad_zero_result:
  "elems (pad_zero grow dst) = elems dst @ replicate (cap dst - len dst) 0 \<and>
   cap (pad_zero grow dst) = cap dst"
proof (induction grow dst rule: pad_zero.induct)
  case (1 grow dst)
  show ?case
  proof (cases "len dst < cap dst")
    case True
    then have "cap dst - len dst = Suc (cap dst - (len dst + 1))" by simp
    with True "1.IH" [OF True] show ?thesis
      by (subst (1 2) pad_zero.simps) (simp add: cap_go_append_fit replicate_append_same)
  next
    case False
    then show ?thesis
      by (subst (1 2) pad_zero.simps) simp
  qed
qed

lemma NextLegacy_count:
  "NextLegacy it = ((w, ok), it') \<Longrightarrow>
     lit_length it' + int (length (lit_rest it')) = lit_length it + int (length (lit_rest it)) \<and>
     (\<not> ok \<longrightarrow> lit_rest it' = [])"
proof (induction it rule: NextLegacy.induct)
  case (1 it)
  show ?case
  proof (cases "lit_pending it")
    case (Cons a ws)
    with "1.prems" show ?thesis
      by (auto simp: NextLegacy.simps [of it])
  next
    case Nil
    show ?thesis
    proof (cases "lit_rest it")
      case empty: Nil
      with Nil "1.prems" show ?thesis
        by (auto simp: NextLegacy.simps [of it])
    next
      case (Cons cp rest)
      let ?it1 = "it\<lparr>lit_pending := cp, lit_rest := rest, lit_length := lit_length it + 1\<rparr>"
      have "NextLegacy ?it1 = ((w, ok), it')"
        using "1.prems" Nil Cons by (simp add: NextLegacy.simps [of it])
      from "1.IH" [OF Nil Cons this] show ?thesis
        using Cons by simp
    qed
  qed
qed

lemma wsLegacy_emit_unfold:
  "NextLegacy it = ((w, ok), it') \<Longrightarrow>
   wsLegacy_emit grow dst it =
     (if \<not> ok then (dst, it')
      else wsLegacy_emit grow (go_append grow dst [weight_hi w, weight_lo w]) it')"
  by (subst wsLegacy_emit.simps) simp

lemma wsLegacy_emit_result:
  "wsLegacy_emit grow dst it = (dst', it') \<Longrightarrow>
     elems dst' = elems dst @ weight_bytes (legacy_stream it) \<and>
     Length it' = lit_length it + int (length (lit_rest it)) \<and>
     (len dst + length (weight_bytes (legacy_stream it)) \<le> cap dst \<longrightarrow> cap dst' = cap dst)"
proof (induction grow dst it arbitrary: dst' it' rule: wsLegacy_emit.induct)
  case (1 grow dst it)
  obtain w ok it1 where nx: "NextLegacy it = ((w, ok), it1)"
    by (cases "NextLegacy it") auto
  from NextLegacy_stream [of it] nx
  have st: "w = (case legacy_stream it of [] \<Rightarrow> 0 | w # _ \<Rightarrow> w)" "ok = (legacy_stream it \<noteq> [])"
    "legacy_stream it1 = tl (legacy_stream it)"
    by auto
  note cnt = NextLegacy_count [OF nx]
  show ?case
  proof (cases ok)
    case False
    with "1.prems" have "dst' = dst" "it' = it1"
      by (simp_all add: wsLegacy_emit_unfold [OF nx])
    with False st cnt show ?thesis
      by (auto simp add: Length_def)
  next
    case True
    with st have s: "legacy_stream it = w # legacy_stream it1"
      by (cases "legacy_stream it") auto
    from "1.prems" True
    have rec: "wsLegacy_emit grow (go_append grow dst [weight_hi w, weight_lo w]) it1 = (dst', it')"
      by (simp add: wsLegacy_emit_unfold [OF nx])
    from "1.IH" [OF nx [symmetric] refl _ rec] True cnt show ?thesis
      by (auto simp add: s cap_go_append_fit)
  qed
qed

lemma pad_space_result:
  "elems (let d = pad_space grow w1 w2 dst in if len d < cap d then go_append grow d [w1] else d) =
     elems dst @ weight_padding w1 w2 (cap dst - len dst) \<and>
   cap (let d = pad_space grow w1 w2 dst in if len d < cap d then go_append grow d [w1] else d) =
     cap dst"
proof (induction grow w1 w2 dst rule: pad_space.induct)
  case (1 grow w1 w2 dst)
  show ?case
  proof (cases "len dst + 1 < cap dst")
    case True
    then have k: "cap dst - len dst = Suc (Suc (cap dst - (len dst + 2)))" by simp
    have u: "pad_space grow w1 w2 dst = pad_space grow w1 w2 (go_append grow dst [w1, w2])"
      using True by (subst pad_space.simps) simp
    from "1.IH" [OF True] True show ?thesis
      unfolding u by (simp add: cap_go_append_fit k)
  next
    case False
    have u: "pad_space grow w1 w2 dst = dst"
      using False by (subst pad_space.simps) simp
    show ?thesis
    proof (cases "len dst < cap dst")
      case True
      with False have "cap dst - len dst = Suc 0" by simp
      with True show ?thesis
        unfolding u by (simp add: cap_go_append_fit)
    next
      case ge: False
      then show ?thesis
        unfolding u by simp
    qed
  qed
qed

lemma pad_count_result:
  "elems (pad_count grow w1 w2 n dst) = elems dst @ concat (replicate (nat n) [w1, w2])"
proof (induction grow w1 w2 n dst rule: pad_count.induct)
  case (1 grow w1 w2 n dst)
  show ?case
  proof (cases "n > 0")
    case True
    then have "nat n = Suc (nat (n - 1))" by simp
    with True "1.IH" [OF True] show ?thesis
      by (subst pad_count.simps) simp
  next
    case False
    then show ?thesis
      by (subst pad_count.simps) simp
  qed
qed

lemma weight_bytes_replicate:
  "weight_bytes (replicate k w) = concat (replicate k [weight_hi w, weight_lo w])"
  by (induction k) simp_all

lemma ws_emit_result:
  "elems (if uca_fast c then ws_fast grow dst it else ws_slow grow dst it) =
     elems dst @ weight_bytes (weight_stream (it_levels it)) \<and>
   (len dst + length (weight_bytes (weight_stream (it_levels it))) \<le> cap dst \<longrightarrow>
      cap (if uca_fast c then ws_fast grow dst it else ws_slow grow dst it) = cap dst)"
  using ws_fast_result [of grow dst it] ws_slow_result [of grow dst it] by simp

lemma WeightString_no_padding:
  "numCodepoints \<noteq> PadToMax \<Longrightarrow>
     elems (WeightString PadToMax grow c dst src numCodepoints) =
       elems dst @ weight_bytes (weights900 c src)"
  using ws_emit_result [of c grow dst "Iterator c src"]
  by (simp add: WeightString_def weights900_def Let_def)

lemma WeightString_padding:
  "elems (WeightString PadToMax grow c dst src PadToMax) =
     elems dst @ weight_bytes (weights900 c src) @
       replicate (cap (WeightString PadToMax grow c dst src PadToMax) -
         (len dst + length (weight_bytes (weights900 c src)))) 0"
  using ws_emit_result [of c grow dst "Iterator c src"]
  by (simp add: WeightString_def weights900_def Let_def pad_zero_result len_def)

lemma WeightString_fits:
  "len dst + length (weight_bytes (weights900 c src)) \<le> cap dst \<Longrightarrow>
     cap (WeightString PadToMax grow c dst src numCodepoints) = cap dst"
  using ws_emit_result [of c grow dst "Iterator c src"]
  by (simp add: WeightString_def weights900_def Let_def pad_zero_result)

lemma legacy_emit_Iterator:
  obtains dst' it' where "wsLegacy_emit grow dst (IteratorLegacy c src) = (dst', it')"
    "elems dst' = elems dst @ weight_bytes (weightsLegacy c src)"
    "Length it' = int (length (legacy_weights c src))"
    "len dst + length (weight_bytes (weightsLegacy c src)) \<le> cap dst \<longrightarrow> cap dst' = cap dst"
proof -
  obtain dst' it' where e: "wsLegacy_emit grow dst (IteratorLegacy c src) = (dst', it')"
    by (cases "wsLegacy_emit grow dst (IteratorLegacy c src)") auto
  from wsLegacy_emit_result [OF e] show ?thesis
    by (intro that [OF e]) (simp_all add: IteratorLegacy_def legacy_stream_def weightsLegacy_def)
qed

lemma WeightStringLegacy_count:
  assumes "0 < numCodepoints" "numCodepoints \<noteq> PadToMax"
  shows "elems (WeightStringLegacy PadToMax grow c dst src numCodepoints) =
     elems dst @ weight_bytes (weightsLegacy c src) @
       weight_bytes (replicate (nat (numCodepoints - int (length (legacy_weights c src))))
         (WeightForSpace c))"
proof -
  obtain dst' it' where e: "wsLegacy_emit grow dst (IteratorLegacy c src) = (dst', it')"
    and el: "elems dst' = elems dst @ weight_bytes (weightsLegacy c src)"
    and ln: "Length it' = int (length (legacy_weights c src))"
    by (rule legacy_emit_Iterator)
  show ?thesis
    using assms by (simp add: WeightStringLegacy_def e Let_def pad_count_result el ln weight_bytes_replicate)
qed

lemma WeightStringLegacy_no_padding:
  assumes "numCodepoints \<le> 0"
  shows "elems (WeightStringLegacy PadToMax grow c dst src numCodepoints) =
     elems dst @ weight_bytes (weightsLegacy c src)"
proof -
  obtain dst' it' where e: "wsLegacy_emit grow dst (IteratorLegacy c src) = (dst', it')"
    and el: "elems dst' = elems dst @ weight_bytes (weightsLegacy c src)"
    by (rule legacy_emit_Iterator)
  show ?thesis
    using assms by (simp add: WeightStringLegacy_def e el)
qed

lemma WeightStringLegacy_padding:
  assumes "0 < PadToMax"
  shows "elems (WeightStringLegacy PadToMax grow c dst src PadToMax) =
     elems dst @ weight_bytes (weightsLegacy c src) @
       weight_padding (weight_hi (WeightForSpace c)) (weight_lo (WeightForSpace c))
         (cap (WeightStringLegacy PadToMax grow c dst src PadToMax) -
           (len dst + length (weight_bytes (weightsLegacy c src))))"
    and "len dst + length (weight_bytes (weightsLegacy c src)) \<le> cap dst \<longrightarrow>
      cap (WeightStringLegacy PadToMax grow c dst src PadToMax) = cap dst"
proof -
  obtain dst' it' where e: "wsLegacy_emit grow dst (IteratorLegacy c src) = (dst', it')"
    and el: "elems dst' = elems dst @ weight_bytes (weightsLegacy c src)"
    and cp: "len dst + length (weight_bytes (weightsLegacy c src)) \<le> cap dst \<longrightarrow> cap dst' = cap dst"
    by (rule legacy_emit_Iterator)
  let ?w1 = "weight_hi (WeightForSpace c)" and ?w2 = "weight_lo (WeightForSpace c)"
  have r: "WeightStringLegacy PadToMax grow c dst src PadToMax =
      (let d = pad_space grow ?w1 ?w2 dst' in if len d < cap d then go_append grow d [?w1] else d)"
    using assms by (simp add: WeightStringLegacy_def e Let_def)
  note ps = pad_space_result [of grow ?w1 ?w2 dst']
  show "elems (WeightStringLegacy PadToMax grow c dst src PadToMax) =
     elems dst @ weight_bytes (weightsLegacy c src) @
       weight_padding ?w1 ?w2
         (cap (WeightStringLegacy PadToMax grow c dst src PadToMax) -
           (len dst + length (weight_bytes (weightsLegacy c src))))"
    unfolding r using ps el by (simp add: len_def)
  show "len dst + length (weight_bytes (weightsLegacy c src)) \<le> cap dst \<longrightarrow>
      cap (WeightStringLegacy PadToMax grow c dst src PadToMax) = cap dst"
    unfolding r using ps cp by simp
qed

lemma length_weight_padding [simp]: "length (weight_padding w1 w2 k) = k"
  by (induction w1 w2 k rule: weight_padding.induct) simp_all

lemma weight_padding_eq_Nil [simp]: "weight_padding w1 w2 k = [] \<longleftrightarrow> k = 0"
  by (induction w1 w2 k rule: weight_padding.induct) simp_all

lemma last_weight_padding: "odd k \<Longrightarrow> last (weight_padding w1 w2 k) = w1"
  by (induction w1 w2 k rule: weight_padding.induct) auto

lemma WeightString_pad_fits:
  assumes "len dst + length (weight_bytes (weights900 c src)) \<le> cap dst"
  shows "len (WeightString PadToMax grow c dst src PadToMax) = cap dst"
proof -
  let ?r = "WeightString PadToMax grow c dst src PadToMax"
  have "cap ?r = cap dst"
    using assms by (rule WeightString_fits)
  then have "elems ?r = elems dst @ weight_bytes (weights900 c src) @
      replicate (cap dst - (len dst + length (weight_bytes (weights900 c src)))) 0"
    using WeightString_padding [of PadToMax grow c dst src] by simp
  then have "length (elems ?r) = len dst + length (weight_bytes (weights900 c src)) +
      (cap dst - (len dst + length (weight_bytes (weights900 c src))))"
    by (simp add: len_def)
  with assms show ?thesis
    by (simp add: len_def)
qed

lemma Collate_from_left_prefix:
  "it_level itl = level \<Longrightarrow> it_level itr = level \<Longrightarrow>
   it_levels itl = ls # rest_l \<Longrightarrow> it_levels itr = rs # rest_r \<Longrightarrow> strict_prefix ls rs \<Longrightarrow>
   Collate_from c rightIsPrefix level itl itr = - 1"
proof (induction ls arbitrary: itl itr rs)
  case Nil
  then obtain x rs' where rs: "rs = x # rs'"
    by (cases rs) auto
  let ?l1 = "itl\<lparr>it_levels := rest_l, it_level := level + 1\<rparr>"
  let ?r1 = "itr\<lparr>it_levels := rs' # rest_r\<rparr>"
  have nl: "Next itl = ((0, rest_l \<noteq> []), ?l1)"
    using Nil.prems by (simp add: Next_def)
  have nr: "Next itr = ((x, True), ?r1)"
    using Nil.prems rs by (simp add: Next_def)
  have sc: "scan level itl itr = (0, rest_l \<noteq> [], x, True, ?l1, ?r1)"
    by (simp add: scan_unfold [OF nl nr] scan_stop_def Level_def)
  show ?case
    using Nil.prems by (simp add: Collate_from_unfold [OF sc] Level_def)
next
  case (Cons w ls')
  then obtain rs' where rs: "rs = w # rs'" and sp: "strict_prefix ls' rs'"
    by (cases rs) auto
  let ?l1 = "itl\<lparr>it_levels := ls' # rest_l\<rparr>"
  let ?r1 = "itr\<lparr>it_levels := rs' # rest_r\<rparr>"
  have nl: "Next itl = ((w, True), ?l1)"
    using Cons.prems by (simp add: Next_def)
  have nr: "Next itr = ((w, True), ?r1)"
    using Cons.prems rs by (simp add: Next_def)
  have ns: "\<not> scan_stop level w True w True ?l1 ?r1"
    using Cons.prems by (simp add: scan_stop_def Level_def)
  have "Collate_from c rightIsPrefix level ?l1 ?r1 = - 1"
    by (rule Cons.IH [OF _ _ _ _ sp]) (use Cons.prems in simp_all)
  then show ?case
    by (simp add: scan_continue [OF nl nr ns])
qed

lemma Collate_from_right_strict_prefix:
  "it_level itl = level \<Longrightarrow> it_level itr = level \<Longrightarrow>
   it_levels itl = ls # rest_l \<Longrightarrow> it_levels itr = rs # rest_r \<Longrightarrow> strict_prefix rs ls \<Longrightarrow>
   Collate_from c False level itl itr = 1"
proof (induction rs arbitrary: itl itr ls)
  case Nil
  then obtain x ls' where ls: "ls = x # ls'"
    by (cases ls) auto
  let ?l1 = "itl\<lparr>it_levels := ls' # rest_l\<rparr>"
  let ?r1 = "itr\<lparr>it_levels := rest_r, it_level := level + 1\<rparr>"
  have nl: "Next itl = ((x, True), ?l1)"
    using Nil.prems ls by (simp add: Next_def)
  have nr: "Next itr = ((0, rest_r \<noteq> []), ?r1)"
    using Nil.prems by (simp add: Next_def)
  have sc: "scan level itl itr = (x, True, 0, rest_r \<noteq> [], ?l1, ?r1)"
    using Nil.prems by (simp add: scan_unfold [OF nl nr] scan_stop_def Level_def)
  show ?case
    using Nil.prems by (simp add: Collate_from_unfold [OF sc] Level_def)
next
  case (Cons w rs')
  then obtain ls' where ls: "ls = w # ls'" and sp: "strict_prefix rs' ls'"
    by (cases ls) auto
  let ?l1 = "itl\<lparr>it_levels := ls' # rest_l\<rparr>"
  let ?r1 = "itr\<lparr>it_levels := rs' # rest_r\<rparr>"
  have nl: "Next itl = ((w, True), ?l1)"
    using Cons.prems ls by (simp add: Next_def)
  have nr: "Next itr = ((w, True), ?r1)"
    using Cons.prems by (simp add: Next_def)
  have ns: "\<not> scan_stop level w True w True ?l1 ?r1"
    using Cons.prems by (simp add: scan_stop_def Level_def)
  have "Collate_from c False level ?l1 ?r1 = 1"
    by (rule Cons.IH [OF _ _ _ _ sp]) (use Cons.prems in simp_all)
  then show ?case
    by (simp add: scan_continue [OF nl nr ns])
qed

lemma length_weight_stream:
  "levels \<noteq> [] \<Longrightarrow>
     length (weight_stream levels) = sum_list (map length levels) + (length levels - 1)"
  by (induction levels rule: weight_stream.induct) simp_all

lemma sum_list_bounded:
  "(\<And>x. x \<in> set xs \<Longrightarrow> int (f x) \<le> b) \<Longrightarrow> int (sum_list (map f xs)) \<le> int (length xs) * b"
proof (induction xs)
  case Nil
  show ?case by simp
next
  case (Cons a xs)
  have "int (f a) \<le> b"
    by (rule Cons.prems) simp
  moreover have "int (sum_list (map f xs)) \<le> int (length xs) * b"
    by (rule Cons.IH) (simp add: Cons.prems)
  ultimately show ?case
    by (simp add: algebra_simps)
qed

lemma weights900_length_bound:
  assumes "1 \<le> levelsForCompare c"
    and "\<forall>k\<in>{0..<levelsForCompare c}. int (length (uca_weights c k src)) \<le> b"
  shows "int (length (weights900 c src)) \<le> b * levelsForCompare c + (levelsForCompare c - 1)"
proof -
  let ?L = "levelsForCompare c"
  let ?lv = "it_levels (Iterator c src)"
  have lv: "?lv = map (\<lambda>k. uca_weights c k src) [0..?L - 1]"
    by (simp add: Iterator_def)
  have n: "int (length ?lv) = ?L"
    using assms(1) by (simp add: lv)
  then have ne: "?lv \<noteq> []"
    using assms(1) by auto
  have "int (sum_list (map length ?lv)) \<le> int (length ?lv) * b"
    unfolding lv map_map comp_def length_map
    by (rule sum_list_bounded) (use assms(2) in auto)
  then have s: "int (sum_list (map length ?lv)) \<le> ?L * b"
    by (simp only: n)
  have "int (length (weights900 c src)) = int (sum_list (map length ?lv)) + (?L - 1)"
    unfolding weights900_def length_weight_stream [OF ne] using n assms(1) by simp
  with s show ?thesis
    by (simp add: mult.commute)
qed

section \<open>The claims\<close>

subsection \<open>Collate\<close>

text \<open>
  C1 (as stated): for all byte strings \<open>a\<close> and \<open>b\<close>, the 900-variant satisfies
  \<open>Collate(a, b, false) = -sign(Collate(b, a, false))\<close>. This fails: \<open>Collate\<close> returns the
  difference of the first two weights that differ, which need not be -1, 0 or 1. With
  weights 5 and 2 the call returns 3, while the negated sign of the swapped call is 1.
\<close>

theorem C1_counterexample:
  "Collate (byte_weights 1 False) [5] [2] False \<noteq>
     - sgn (Collate (byte_weights 1 False) [2] [5] False)"
  by code_simp

text \<open>
  C1 (amended): for all byte strings \<open>a\<close> and \<open>b\<close> and every 900 collation, the signs are
  opposite: \<open>sign(Collate(a, b, false)) = -sign(Collate(b, a, false))\<close>.
\<close>

theorem C1_Collate_sign_antisymmetric:
  "sgn (Collate c a b False) = - sgn (Collate c b a False)"
  unfolding Collate_def by (rule Collate_from_antisym) (simp_all add: Iterator_def)

theorem C1_witness:
  "sgn (Collate (byte_weights 3 False) [7, 5] [7, 2] False) = 1 \<and>
   sgn (Collate (byte_weights 3 False) [7, 2] [7, 5] False) = - 1"
proof -
  have "Collate (byte_weights 3 False) [7, 5] [7, 2] False = 3"
    by code_simp
  then show ?thesis
    using C1_Collate_sign_antisymmetric [of "byte_weights 3 False" "[7, 2]" "[7, 5]"] by simp
qed

text \<open>
  C3 (as stated): in the 900-variant \<open>Collate\<close> with \<open>rightIsPrefix = true\<close>, whenever the
  left operand runs out of weights at a level while the right still produces them,
  \<open>SkipLevel\<close> is invoked on the left iterator, and if nothing further distinguishes the
  operands the call returns the negated remaining weight rather than a hard inequality.
  This fails: in that situation the second case of the \<open>switch\<close> returns -1. With one
  level, an empty left operand and a right operand of weight 5, the loop ends with the left
  iterator past level 0 and the right one on it with \<open>r = 5\<close>, and the call returns -1,
  not -5.
\<close>

theorem C3_counterexample:
  "scan 0 (Iterator (byte_weights 1 False) []) (Iterator (byte_weights 1 False) [5]) =
     (0, False, 5, True, \<lparr>it_levels = [], it_level = 1\<rparr>, \<lparr>it_levels = [[]], it_level = 0\<rparr>) \<and>
   Collate (byte_weights 1 False) [] [5] True = - 1 \<and>
   Collate (byte_weights 1 False) [] [5] True \<noteq> - uint (5 :: weight)"
  by (simp add: Collate_def Collate_from.simps scan.simps byte_weights_def Iterator_def
      Next_def Level_def)

text \<open>
  C3 (amended): the sides are the other way round. In the 900-variant \<open>Collate\<close> with
  \<open>rightIsPrefix = true\<close>, whenever the right operand runs out of weights at a level while
  the left still produces them, \<open>SkipLevel\<close> on the left iterator drops the rest of that
  level and the higher levels are compared; if nothing distinguishes the operands there
  either, the call returns \<open>-int(r)\<close>, the negated last weight read from the right, which
  is 0, rather than a hard inequality. So: when on every compared level the weights of the
  right operand are a prefix of the weights of the left operand, \<open>Collate\<close> returns 0.
  Without \<open>rightIsPrefix\<close> the same situation on the first level gives the hard
  inequality 1, and the left-exhausted/right-continuing situation on the first level gives
  -1 whatever \<open>rightIsPrefix\<close> is.
\<close>

theorem C3_Collate_right_is_prefix:
  "((\<forall>k \<in> {0 ..< levelsForCompare c}. prefix (uca_weights c k right) (uca_weights c k left)) \<longrightarrow>
      Collate c left right True = 0) \<and>
   (0 < levelsForCompare c \<and> strict_prefix (uca_weights c 0 right) (uca_weights c 0 left) \<longrightarrow>
      Collate c left right False = 1) \<and>
   (0 < levelsForCompare c \<and> strict_prefix (uca_weights c 0 left) (uca_weights c 0 right) \<longrightarrow>
      Collate c left right rightIsPrefix = - 1)"
proof (intro conjI impI)
  assume "\<forall>k \<in> {0 ..< levelsForCompare c}. prefix (uca_weights c k right) (uca_weights c k left)"
  then show "Collate c left right True = 0"
    by (rule Collate_right_prefix)
next
  assume a: "0 < levelsForCompare c \<and> strict_prefix (uca_weights c 0 right) (uca_weights c 0 left)"
  then have u: "[0..levelsForCompare c - 1] = 0 # [1..levelsForCompare c - 1]"
    by (simp add: upto.simps)
  from a have sp: "strict_prefix (uca_weights c 0 right) (uca_weights c 0 left)" ..
  show "Collate c left right False = 1"
    unfolding Collate_def
    by (rule Collate_from_right_strict_prefix [OF _ _ _ _ sp]) (simp_all add: Iterator_def u)
next
  assume a: "0 < levelsForCompare c \<and> strict_prefix (uca_weights c 0 left) (uca_weights c 0 right)"
  then have u: "[0..levelsForCompare c - 1] = 0 # [1..levelsForCompare c - 1]"
    by (simp add: upto.simps)
  from a have sp: "strict_prefix (uca_weights c 0 left) (uca_weights c 0 right)" ..
  show "Collate c left right rightIsPrefix = - 1"
    unfolding Collate_def
    by (rule Collate_from_left_prefix [OF _ _ _ _ sp]) (simp_all add: Iterator_def u)
qed

theorem C3_witness:
  "Collate (byte_weights 3 False) [2, 5, 6] [2] True = 0 \<and>
   Collate (byte_weights 3 False) [2, 5, 6] [2] False = 1 \<and>
   Collate (byte_weights 3 False) [2] [2, 5, 6] True = - 1"
proof -
  let ?c = "byte_weights 3 False"
  have p: "\<forall>k \<in> {0 ..< levelsForCompare ?c}. prefix (uca_weights ?c k [2]) (uca_weights ?c k [2, 5, 6])"
    by (simp add: byte_weights_def)
  have s: "0 < levelsForCompare ?c \<and> strict_prefix (uca_weights ?c 0 [2]) (uca_weights ?c 0 [2, 5, 6])"
    by (simp add: byte_weights_def strict_prefix_def)
  from p s C3_Collate_right_is_prefix [of ?c "[2]" "[2, 5, 6]" True]
    C3_Collate_right_is_prefix [of ?c "[2, 5, 6]" "[2]" True]
  show ?thesis by blast
qed

text \<open>
  C4 (as stated): for the legacy variant, \<open>Collate\<close> with \<open>isPrefix = true\<close> returns 0
  whenever one side's weight stream is exhausted while all weights produced so far were
  equal. This fails when it is the left side that is exhausted: the short-circuit tests
  \<open>!rok\<close> only. With an empty left operand and a right operand of weight 5 the call
  returns -5.
\<close>

theorem C4_counterexample:
  "CollateLegacy (legacy_byte_weights 0x0209) [] [5] True \<noteq> 0"
  by (simp add: CollateLegacy_def legacy_byte_weights_def IteratorLegacy_def
      CollateLegacy_loop.simps NextLegacy.simps)

text \<open>
  C4 (amended): for the legacy variant, \<open>Collate\<close> with \<open>isPrefix = true\<close> returns 0
  whenever the right side's weight stream is exhausted while all weights produced so far
  were equal, that is, whenever the weights of the right operand are a prefix of the
  weights of the left operand. When it is the left side alone that is exhausted (the
  weights of the left operand are a proper prefix of those of the right), the call returns
  \<open>int(l) - int(r)\<close> with \<open>l = 0\<close>: the negated next weight of the right operand, whatever
  \<open>isPrefix\<close> is, which is 0 only if that weight is 0.
\<close>

theorem C4_CollateLegacy_prefix:
  "(prefix (weightsLegacy c right) (weightsLegacy c left) \<longrightarrow>
      CollateLegacy c left right True = 0) \<and>
   (strict_prefix (weightsLegacy c left) (weightsLegacy c right) \<longrightarrow>
      CollateLegacy c left right isPrefix =
        - uint (weightsLegacy c right ! length (weightsLegacy c left)))"
proof (intro conjI impI)
  assume "prefix (weightsLegacy c right) (weightsLegacy c left)"
  then show "CollateLegacy c left right True = 0"
    unfolding CollateLegacy_def
    by (intro CollateLegacy_loop_prefix)
       (simp add: legacy_stream_def IteratorLegacy_def weightsLegacy_def)
next
  assume "strict_prefix (weightsLegacy c left) (weightsLegacy c right)"
  then show "CollateLegacy c left right isPrefix =
      - uint (weightsLegacy c right ! length (weightsLegacy c left))"
    unfolding CollateLegacy_def
    by (intro CollateLegacy_loop_left_exhausted)
       (simp_all add: legacy_stream_def IteratorLegacy_def weightsLegacy_def)
qed

theorem C4_witness:
  "CollateLegacy (legacy_byte_weights 0x0209) [7, 5] [7] True = 0 \<and>
   CollateLegacy (legacy_byte_weights 0x0209) [7] [7, 5] True = - 5"
proof -
  let ?c = "legacy_byte_weights 0x0209"
  have w: "weightsLegacy ?c [7] = [7]" "weightsLegacy ?c [7, 5] = [7, 5]"
    by (simp_all add: weightsLegacy_def legacy_byte_weights_def)
  have p: "prefix (weightsLegacy ?c [7]) (weightsLegacy ?c [7, 5])"
    and s: "strict_prefix (weightsLegacy ?c [7]) (weightsLegacy ?c [7, 5])"
    by (simp_all add: w strict_prefix_def)
  have "CollateLegacy ?c [7, 5] [7] True = 0"
    using C4_CollateLegacy_prefix [of ?c "[7]" "[7, 5]" True] p by blast
  moreover have "CollateLegacy ?c [7] [7, 5] True = - uint (weightsLegacy ?c [7, 5] ! length (weightsLegacy ?c [7]))"
    using C4_CollateLegacy_prefix [of ?c "[7, 5]" "[7]" True] s by blast
  ultimately show ?thesis
    by (simp add: w)
qed

subsection \<open>WeightStringLen\<close>

text \<open>
  C7: for every \<open>numBytes\<close> that is not a multiple of 4 the modern variant's
  \<open>WeightStringLen\<close> panics and returns no value; for every multiple of 4 it returns
  normally.
\<close>

theorem C7_WeightStringLen_panics:
  "(\<not> 4 dvd numBytes \<longrightarrow> (\<exists>msg. WeightStringLen m c numBytes = Inl (Panic msg))) \<and>
   (4 dvd numBytes \<longrightarrow> (\<exists>n. WeightStringLen m c numBytes = Inr n))"
  by (simp add: WeightStringLen_def smod4_eq_0_iff Let_def)

theorem C7_witness:
  "\<not> 4 dvd (6::int) \<and> (\<exists>msg. WeightStringLen 8 (byte_weights 3 False) 6 = Inl (Panic msg)) \<and>
   4 dvd (8::int) \<and> (\<exists>n. WeightStringLen 8 (byte_weights 3 False) 8 = Inr n)"
  using C7_WeightStringLen_panics [of 6 8 "byte_weights 3 False"]
    C7_WeightStringLen_panics [of 8 8 "byte_weights 3 False"]
  by simp

text \<open>
  C8 (as stated): for every \<open>numBytes\<close> that is a multiple of 4 the result counts exactly
  one separator byte between each pair of levels, \<open>levelsForCompare - 1\<close> separator bytes
  in total. This fails: the separators are counted as weights before the doubling, two
  bytes each. For three levels, 8 elements per unit and 4 bytes the result is 52, not 50.
\<close>

theorem C8_counterexample:
  "WeightStringLen 8 (byte_weights 3 False) 4 \<noteq> Inr (WeightStringLen_worded 8 3 4)"
  by (simp add: WeightStringLen_def WeightStringLen_worded_def byte_weights_def int64_def
      signed_divide_int_def signed_modulo_int_def)

text \<open>
  C8 (amended): for every \<open>numBytes \<ge> 0\<close> that is a multiple of 4, and as long as the
  result fits a 64-bit integer, \<open>WeightStringLen\<close> returns two bytes for each of
  \<open>(numBytes / 4) * MaxCollationElementsPerCodepoint * levelsForCompare\<close> weights plus
  one two-byte separator weight between each pair of levels, \<open>2 * (levelsForCompare - 1)\<close>
  separator bytes in total.
\<close>

theorem C8_WeightStringLen_formula:
  assumes "4 dvd numBytes" "0 \<le> numBytes" "0 \<le> m" "1 \<le> levelsForCompare c"
    and "2 * ((numBytes div 4) * m * levelsForCompare c + (levelsForCompare c - 1)) < 2 ^ 63"
  shows "WeightStringLen m c numBytes =
     Inr (2 * ((numBytes div 4) * m * levelsForCompare c) + 2 * (levelsForCompare c - 1))"
  using WeightStringLen_value [OF assms] by (simp add: algebra_simps)

theorem C8_witness:
  "WeightStringLen 8 (byte_weights 3 False) 4 = Inr (2 * (1 * 8 * 3) + 2 * (3 - 1))"
  using C8_WeightStringLen_formula [of 4 8 "byte_weights 3 False"]
  by (simp add: byte_weights_def)

subsection \<open>WeightString\<close>

text \<open>
  C2 (as stated): for every source string \<open>src\<close> whose length is a multiple of 4, the
  length of \<open>WeightString(nil, src, PadToMax)\<close> is at most \<open>WeightStringLen(len(src))\<close>.
  This fails in two ways. A \<open>nil\<close> destination has no capacity, so \<open>append\<close> allocates, and
  the padding then fills whatever capacity \<open>append\<close> chose: for three levels and the empty
  string the two separators are 4 bytes, the predicted length is 4, and with a first
  allocation of 8 bytes the result has 8 bytes, on the general and on the fast branch. And
  the bound counts \<open>MaxCollationElementsPerCodepoint\<close> weights for every 4 bytes of the
  source, which a source of shorter codepoints can exceed: with one level, 8 elements per
  codepoint at most and a table of three elements per one-byte codepoint, 4 bytes give 24
  weight bytes against a predicted 16, and a destination of capacity 16 is outgrown.
\<close>

theorem C2_counterexample:
  "WeightStringLen 8 (byte_weights 3 False) (int (length ([] :: byte list))) = Inr 4 \<and>
   len (WeightString 2147483647 grow_round8 (byte_weights 3 False) nil [] 2147483647) = 8 \<and>
   len (WeightString 2147483647 grow_round8 (byte_weights 3 True) nil [] 2147483647) = 8 \<and>
   WeightStringLen 8 (expanding_weights 1 False) (int (length [1, 2, 3, 4 :: byte])) = Inr 16 \<and>
   length (weight_bytes (weights900 (expanding_weights 1 False) [1, 2, 3, 4])) = 24 \<and>
   len (WeightString 2147483647 grow_round8 (expanding_weights 1 False)
      \<lparr>elems = [], cap = 16\<rparr> [1, 2, 3, 4] 2147483647) = 32"
  by (simp add: WeightStringLen_def int64_def WeightString_def byte_weights_def
      expanding_weights_def weights900_def Iterator_def
      nil_def upto.simps ws_slow.simps ws_fast.simps NextChunk.simps Next_def go_append_def
      len_def grow_round8_def pad_zero.simps weight_hi_def weight_lo_def)

text \<open>
  C2 (amended): for every source string \<open>src\<close> whose length is a multiple of 4 and which
  yields, on every compared level, at most \<open>(len(src) / 4) * MaxCollationElementsPerCodepoint\<close>
  weights (as a source of 4-byte codepoints does), and for an empty destination of capacity
  \<open>WeightStringLen(len(src))\<close>, the length of \<open>WeightString(dst, src, PadToMax)\<close> is exactly
  \<open>WeightStringLen(len(src))\<close>: the weight bytes fit the predicted capacity, the slice is not
  reallocated, and the padding stops at the predicted length. (The bound must fit a 64-bit
  integer.)
\<close>

theorem C2_WeightString_length_bound:
  assumes "4 dvd length src" and "0 \<le> m" and "1 \<le> levelsForCompare c"
    and "2 * ((int (length src) div 4) * m * levelsForCompare c + (levelsForCompare c - 1)) < 2 ^ 63"
    and "\<forall>k \<in> {0 ..< levelsForCompare c}.
           int (length (uca_weights c k src)) \<le> (int (length src) div 4) * m"
    and "WeightStringLen m c (int (length src)) = Inr n"
    and "elems dst = []" and "int (cap dst) = n"
  shows "int (length (weight_bytes (weights900 c src))) \<le> n \<and>
     int (len (WeightString PadToMax grow c dst src PadToMax)) = n \<and>
     cap (WeightString PadToMax grow c dst src PadToMax) = cap dst"
proof -
  let ?L = "levelsForCompare c" and ?q = "int (length src) div 4"
  have "4 dvd int (length src)"
    using assms(1) by presburger
  then have "WeightStringLen m c (int (length src)) = Inr (2 * (?q * m * ?L + (?L - 1)))"
    using assms(2,3,4) by (intro WeightStringLen_value) simp_all
  with assms(6) have n: "n = 2 * (?q * m * ?L + (?L - 1))"
    by simp
  have "int (length (weights900 c src)) \<le> ?q * m * ?L + (?L - 1)"
    using assms(3,5) by (rule weights900_length_bound)
  then have wb: "int (length (weight_bytes (weights900 c src))) \<le> n"
    unfolding n by simp
  then have fit: "len dst + length (weight_bytes (weights900 c src)) \<le> cap dst"
    using assms(7,8) by (simp add: len_def)
  show ?thesis
    using wb WeightString_pad_fits [OF fit, of PadToMax grow]
      WeightString_fits [OF fit, of PadToMax grow PadToMax] assms(8)
    by simp
qed

theorem C2_witness:
  "int (length (weight_bytes (weights900 (byte_weights 2 True) [1, 2, 3, 4]))) \<le> 34 \<and>
   int (len (WeightString 2147483647 grow_round8 (byte_weights 2 True)
      \<lparr>elems = [], cap = 34\<rparr> [1, 2, 3, 4] 2147483647)) = 34"
proof -
  let ?c = "byte_weights 2 True"
  let ?src = "[1, 2, 3, 4 :: byte]"
  have l: "levelsForCompare ?c = 2" "length ?src = 4"
    by (simp_all add: byte_weights_def)
  have d: "4 dvd length ?src"
    unfolding l(2) by simp
  have n: "WeightStringLen 8 ?c (int (length ?src)) = Inr 34"
    by (simp add: WeightStringLen_def int64_def byte_weights_def)
  have t: "\<forall>k \<in> {0 ..< levelsForCompare ?c}.
      int (length (uca_weights ?c k ?src)) \<le> (int (length ?src) div 4) * 8"
    by (simp add: byte_weights_def)
  have "int (length (weight_bytes (weights900 ?c ?src))) \<le> 34 \<and>
     int (len (WeightString 2147483647 grow_round8 ?c \<lparr>elems = [], cap = 34\<rparr> ?src 2147483647)) = 34 \<and>
     cap (WeightString 2147483647 grow_round8 ?c \<lparr>elems = [], cap = 34\<rparr> ?src 2147483647) =
       cap \<lparr>elems = [], cap = 34\<rparr>"
    by (rule C2_WeightString_length_bound [OF d _ _ _ t n]) (simp_all add: l)
  then show ?thesis by blast
qed

text \<open>
  C5 (as stated): for both variants, \<open>WeightString\<close> with the \<open>PadToMax\<close> sentinel fills all
  remaining destination capacity after the real weight bytes with zero bytes. This fails
  for the legacy variant, which pads with the bytes of the weight of the space character.
  With a space weight of 0x0209, an empty source and a capacity of 4 the result is
  02 09 02 09.
\<close>

theorem C5_counterexample:
  "elems (WeightStringLegacy 2147483647 grow_round8 (legacy_byte_weights 0x0209)
      \<lparr>elems = [], cap = 4\<rparr> [] 2147483647) \<noteq> [0, 0, 0, 0]"
  by (simp add: WeightStringLegacy_def legacy_byte_weights_def IteratorLegacy_def
      wsLegacy_emit.simps NextLegacy.simps go_append_def len_def pad_space.simps
      weight_hi_def weight_lo_def)

text \<open>
  C5 (amended): with the \<open>PadToMax\<close> sentinel, the modern variant fills all remaining
  capacity after the real weight bytes with zero bytes; the legacy variant (whose padding
  needs \<open>PadToMax > 0\<close>) fills it with the bytes of the space weight, high byte first.
\<close>

theorem C5_WeightString_pad_to_max:
  "(let r = WeightString PadToMax grow c dst src PadToMax in
      elems r = elems dst @ weight_bytes (weights900 c src) @
        replicate (cap r - (len dst + length (weight_bytes (weights900 c src)))) 0) \<and>
   (0 < PadToMax \<longrightarrow>
     (let r = WeightStringLegacy PadToMax grow cl dst src PadToMax in
        elems r = elems dst @ weight_bytes (weightsLegacy cl src) @
          weight_padding (weight_hi (WeightForSpace cl)) (weight_lo (WeightForSpace cl))
            (cap r - (len dst + length (weight_bytes (weightsLegacy cl src))))))"
  using WeightString_padding [of PadToMax grow c dst src]
    WeightStringLegacy_padding(1) [of PadToMax grow cl dst src]
  by (simp add: Let_def)

theorem C5_witness:
  "elems (WeightString 2147483647 grow_round8 (byte_weights 1 True) \<lparr>elems = [], cap = 5\<rparr> [7]
      2147483647) = [0, 7, 0, 0, 0] \<and>
   elems (WeightStringLegacy 2147483647 grow_round8 (legacy_byte_weights 0x0209)
      \<lparr>elems = [], cap = 5\<rparr> [7] 2147483647) = [0, 7, 2, 9, 2]"
proof -
  let ?d = "\<lparr>elems = [], cap = 5\<rparr>"
  let ?c = "byte_weights 1 True" and ?cl = "legacy_byte_weights 0x0209"
  have wb: "weight_bytes (weights900 ?c [7]) = [0, 7]"
    by (simp add: weights900_def byte_weights_def Iterator_def upto.simps weight_hi_def
        weight_lo_def)
  have wl: "weight_bytes (weightsLegacy ?cl [7]) = [0, 7]"
    by (simp add: weightsLegacy_def legacy_byte_weights_def weight_hi_def weight_lo_def)
  have sp: "weight_hi (WeightForSpace ?cl) = 2" "weight_lo (WeightForSpace ?cl) = 9"
    by (simp_all add: legacy_byte_weights_def weight_hi_def weight_lo_def)
  have c1: "cap (WeightString 2147483647 grow_round8 ?c ?d [7] 2147483647) = 5"
    by (rule trans [OF WeightString_fits]) (simp_all add: wb len_def)
  have c2: "cap (WeightStringLegacy 2147483647 grow_round8 ?cl ?d [7] 2147483647) = 5"
    using WeightStringLegacy_padding(2) [where PadToMax = 2147483647 and grow = grow_round8
        and c = ?cl and dst = ?d and src = "[7]"]
    by (simp add: wl len_def)
  have p: "weight_padding a b 3 = [a, b, a]" "replicate 3 a = [a, a, a]" for a b :: byte
    by (simp_all add: eval_nat_numeral)
  show ?thesis
    using C5_WeightString_pad_to_max [where PadToMax = 2147483647 and grow = grow_round8
        and c = ?c and dst = ?d and src = "[7]" and cl = ?cl]
    by (simp add: Let_def c1 c2 wb wl sp len_def p)
qed

text \<open>
  C6: \<open>WeightString\<close> with a positive \<open>numCodepoints\<close> other than \<open>PadToMax\<close>: the legacy
  variant appends the weight of the space character once for every codepoint that the
  input falls short of \<open>numCodepoints\<close> (codepoints decoded, not bytes); the modern variant
  appends the weights only.
\<close>

theorem C6_WeightString_numeric_padding:
  assumes "0 < numCodepoints" and "numCodepoints \<noteq> PadToMax"
  shows "elems (WeightStringLegacy PadToMax grow cl dst src numCodepoints) =
       elems dst @ weight_bytes (weightsLegacy cl src) @
         weight_bytes (replicate (nat (numCodepoints - int (length (legacy_weights cl src))))
           (WeightForSpace cl)) \<and>
     elems (WeightString PadToMax grow c dst src numCodepoints) =
       elems dst @ weight_bytes (weights900 c src)"
  using WeightStringLegacy_count [OF assms] WeightString_no_padding [OF assms(2)] by simp

theorem C6_witness:
  "elems (WeightStringLegacy 2147483647 grow_round8 (legacy_byte_weights 0x0209) nil [5] 3) =
     [0, 5, 2, 9, 2, 9] \<and>
   elems (WeightString 2147483647 grow_round8 (byte_weights 1 True) nil [5] 3) = [0, 5]"
proof -
  let ?c = "byte_weights 1 True" and ?cl = "legacy_byte_weights 0x0209"
  have wb: "weight_bytes (weights900 ?c [5]) = [0, 5]"
    by (simp add: weights900_def byte_weights_def Iterator_def upto.simps weight_hi_def
        weight_lo_def)
  have wl: "weight_bytes (weightsLegacy ?cl [5]) = [0, 5]" "length (legacy_weights ?cl [5]) = 1"
    by (simp_all add: weightsLegacy_def legacy_byte_weights_def weight_hi_def weight_lo_def)
  have r2: "replicate 2 w = [w, w]" for w :: weight
    by (simp add: numeral_2_eq_2)
  have sp: "weight_bytes (replicate 2 (WeightForSpace ?cl)) = [2, 9, 2, 9]"
    by (simp add: r2 legacy_byte_weights_def weight_hi_def weight_lo_def)
  show ?thesis
    using C6_WeightString_numeric_padding [where numCodepoints = 3 and PadToMax = 2147483647
        and grow = grow_round8 and cl = ?cl and dst = nil and src = "[5]" and c = ?c]
    by (simp add: wb wl sp nil_def)
qed

text \<open>
  C9 (as stated): two calls of \<open>WeightString\<close> with equal \<open>src\<close> and equal \<open>numCodepoints\<close>
  on the same collation return equal output, whatever the destination buffer. This fails:
  the output is appended to the destination and, with \<open>PadToMax\<close>, padded to its capacity.
  Two empty destinations of capacities 4 and 8 give 4 and 8 bytes.
\<close>

theorem C9_counterexample:
  "elems (WeightString 2147483647 grow_round8 (byte_weights 1 False) \<lparr>elems = [], cap = 4\<rparr> [5]
      2147483647) \<noteq>
   elems (WeightString 2147483647 grow_round8 (byte_weights 1 False) \<lparr>elems = [], cap = 8\<rparr> [5]
      2147483647)"
  by (simp add: WeightString_def byte_weights_def Iterator_def upto.simps ws_slow.simps
      Next_def go_append_def len_def pad_zero.simps weight_hi_def weight_lo_def)

text \<open>
  C9 (amended): \<open>WeightString\<close> is a function of \<open>(dst, src, numCodepoints, collation)\<close>.
  When \<open>numCodepoints\<close> is not \<open>PadToMax\<close>, its output is the bytes of \<open>dst\<close> followed by
  bytes that depend on \<open>(src, numCodepoints, collation)\<close> only: the same bytes that a call
  with a \<open>nil\<close> destination returns, whatever the capacity of \<open>dst\<close> and however \<open>append\<close>
  grows it. This holds for the modern and for the legacy variant.
\<close>

theorem C9_WeightString_appends:
  assumes "numCodepoints \<noteq> PadToMax"
  shows "elems (WeightString PadToMax grow c dst src numCodepoints) =
       elems dst @ elems (WeightString PadToMax grow' c nil src numCodepoints) \<and>
     elems (WeightStringLegacy PadToMax grow cl dst src numCodepoints) =
       elems dst @ elems (WeightStringLegacy PadToMax grow' cl nil src numCodepoints)"
proof (cases "0 < numCodepoints")
  case True
  then show ?thesis
    using assms by (simp add: WeightString_no_padding WeightStringLegacy_count nil_def)
next
  case False
  then show ?thesis
    using assms by (simp add: WeightString_no_padding WeightStringLegacy_no_padding nil_def)
qed

theorem C9_witness:
  "elems (WeightString 2147483647 grow_round8 (byte_weights 1 True) \<lparr>elems = [9], cap = 1\<rparr> [5] 0) =
     [9] @ elems (WeightString 2147483647 (\<lambda>old needed. needed) (byte_weights 1 True) nil [5] 0) \<and>
   elems (WeightStringLegacy 2147483647 grow_round8 (legacy_byte_weights 0x0209)
      \<lparr>elems = [9], cap = 1\<rparr> [5] 0) =
     [9] @ elems (WeightStringLegacy 2147483647 (\<lambda>old needed. needed)
      (legacy_byte_weights 0x0209) nil [5] 0)"
  using C9_WeightString_appends [where numCodepoints = 0 and PadToMax = 2147483647
      and grow = grow_round8 and c = "byte_weights 1 True" and dst = "\<lparr>elems = [9], cap = 1\<rparr>"
      and src = "[5]" and grow' = "\<lambda>old needed. needed" and cl = "legacy_byte_weights 0x0209"]
  by simp

text \<open>
  C10: for the legacy variant, \<open>WeightString\<close> with the \<open>PadToMax\<close> sentinel (a positive
  constant) pads up to the capacity: when the capacity of the slice holds the emitted
  weights, the result has length exactly that capacity, which is \<open>cap(dst)\<close> as supplied
  whenever the weights fit into it. After the weights, the two bytes of the space weight
  are repeated, and when one byte of capacity remains only the high byte is appended, so
  that the result then ends with the high byte, in the middle of a weight.
\<close>

theorem C10_WeightStringLegacy_pad_to_max:
  assumes "0 < PadToMax"
  shows "(let r = WeightStringLegacy PadToMax grow c dst src PadToMax;
              w1 = weight_hi (WeightForSpace c); w2 = weight_lo (WeightForSpace c);
              n = len dst + length (weight_bytes (weightsLegacy c src));
              k = cap r - n
          in elems r = elems dst @ weight_bytes (weightsLegacy c src) @ weight_padding w1 w2 k \<and>
             (n \<le> cap r \<longrightarrow> len r = cap r) \<and>
             (n \<le> cap dst \<longrightarrow> cap r = cap dst) \<and>
             (odd k \<longrightarrow> last (elems r) = w1))"
proof -
  let ?r = "WeightStringLegacy PadToMax grow c dst src PadToMax"
  let ?w1 = "weight_hi (WeightForSpace c)" and ?w2 = "weight_lo (WeightForSpace c)"
  let ?n = "len dst + length (weight_bytes (weightsLegacy c src))"
  let ?k = "cap ?r - ?n"
  have cp: "?n \<le> cap dst \<longrightarrow> cap ?r = cap dst"
    by (rule WeightStringLegacy_padding(2) [OF assms])
  have el: "elems ?r = elems dst @ weight_bytes (weightsLegacy c src) @ weight_padding ?w1 ?w2 ?k"
    by (rule WeightStringLegacy_padding(1) [OF assms])
  have "length (elems ?r) = ?n + ?k"
    by (subst el) (simp add: len_def)
  then have ln: "?n \<le> cap ?r \<longrightarrow> len ?r = cap ?r"
    by (simp add: len_def)
  have "last (elems ?r) = ?w1" if "odd ?k"
  proof -
    define pad where "pad = weight_padding ?w1 ?w2 ?k"
    have "pad \<noteq> []"
      unfolding pad_def using that by auto
    moreover have "last pad = ?w1"
      unfolding pad_def using that by (rule last_weight_padding)
    moreover have "elems ?r = elems dst @ weight_bytes (weightsLegacy c src) @ pad"
      unfolding pad_def by (rule el)
    ultimately show ?thesis by simp
  qed
  with el ln cp show ?thesis
    unfolding Let_def by blast
qed

theorem C10_witness:
  "(let r = WeightStringLegacy 2147483647 grow_round8 (legacy_byte_weights 0x0209)
        \<lparr>elems = [], cap = 7\<rparr> [5] 2147483647
    in len r = 7 \<and> elems r = [0, 5, 2, 9, 2, 9, 2] \<and> last (elems r) = 2)"
proof -
  let ?cl = "legacy_byte_weights 0x0209"
  let ?d = "\<lparr>elems = [], cap = 7\<rparr>"
  have wl: "weight_bytes (weightsLegacy ?cl [5]) = [0, 5]"
    by (simp add: weightsLegacy_def legacy_byte_weights_def weight_hi_def weight_lo_def)
  have sp: "weight_hi (WeightForSpace ?cl) = 2" "weight_lo (WeightForSpace ?cl) = 9"
    by (simp_all add: legacy_byte_weights_def weight_hi_def weight_lo_def)
  have p: "weight_padding a b 5 = [a, b, a, b, a]" for a b :: byte
    by (simp add: eval_nat_numeral)
  note t = C10_WeightStringLegacy_pad_to_max [where PadToMax = 2147483647 and dst = ?d
      and c = ?cl and src = "[5]" and grow = grow_round8]
  have c7: "cap (WeightStringLegacy 2147483647 grow_round8 ?cl ?d [5] 2147483647) = 7"
    using t by (simp add: Let_def wl len_def)
  show ?thesis
    using t by (simp add: Let_def wl sp len_def p c7)
qed

end
